theory Spec2Isabelle
  imports Complex_Main
begin

section \<open>Data model\<close>

text \<open>
  Modelled from the spec: the module \<open>models.py\<close> with the records \<open>Event\<close>,
  \<open>DetectionRule\<close> and \<open>Alert\<close> is not among the sources; the fields are those the
  spec's data model lists and the handlers read and write. A \<open>datetime\<close> is a whole
  number of seconds of the epoch, without a time zone, so \<open>int(ts.timestamp())\<close> is the
  number itself; the range of \<open>datetime\<close> and of \<open>timedelta\<close> is modelled where the
  handlers compute with them, in the section on eviction. \<open>details\<close> maps strings to
  strings, as the ingestion builds it. A string is a list of code points below 256, so
  \<open>len\<close> is \<open>length\<close>.
\<close>

record event =
  timestamp :: int
  source :: string
  category :: string
  severity :: string
  details :: "string \<rightharpoonup> string"

text \<open>
  A rule parameter is a scalar of a JSON or YAML document. A finite float is the real
  number it stands for; the three special values of IEEE arithmetic are kept apart.
\<close>

datatype pyfloat = Finite real | PosInf | NegInf | NaN

datatype pval = PNone | PBool bool | PInt int | PFloat pyfloat | PStr string

record rule =
  rule_id :: string
  rule_name :: string
  rule_type :: string
  rule_description :: string
  rule_severity :: string
  enabled :: bool
  parameters :: "string \<rightharpoonup> pval"
  rule_remediation :: "string option"

record alert =
  alert_id :: string
  created_at :: int
  title :: string
  description :: string
  priority :: string
  events :: "event list"
  remediation :: "string option"

datatype error = ValueError | TypeError | OverflowError

text \<open>
  What the handlers take from the Python runtime and do not compute themselves: the
  wall clock read by \<open>datetime.utcnow()\<close>, the parser of \<open>float(str)\<close>, the printer
  of \<open>str(float)\<close>, and the arithmetic of doubles. A double is the real number it
  stands for; an arithmetic operation on doubles is the exact operation followed by
  \<open>round_double\<close>, the rounding to the nearest double, and \<open>math.log2\<close> is the
  platform's \<open>libm_log2\<close>.
\<close>

record env =
  now :: int
  float_of_str :: "string \<Rightarrow> pyfloat option"
  float_repr :: "pyfloat \<Rightarrow> string"
  round_double :: "real \<Rightarrow> real"
  libm_log2 :: "real \<Rightarrow> real"

section \<open>Python built-ins used by the handlers\<close>

definition dict_get :: "('k \<rightharpoonup> 'v) \<Rightarrow> 'k \<Rightarrow> 'v \<Rightarrow> 'v" where
  "dict_get m k d = (case m k of None \<Rightarrow> d | Some v \<Rightarrow> v)"

text \<open>
  The characters \<open>int(str)\<close> recognises among the code points below 256: the decimal
  digits, and the white space it strips from both ends (tab to carriage return and the
  space; next line \<open>0x85\<close> and no-break space \<open>0xA0\<close>, which the conversion turns
  into spaces first). The separators \<open>0x1C\<close> to \<open>0x1F\<close> are not stripped.
\<close>

definition is_digit :: "char \<Rightarrow> bool" where
  "is_digit c = (48 \<le> (of_char c :: nat) \<and> (of_char c :: nat) \<le> 57)"

definition digit_val :: "char \<Rightarrow> nat" where
  "digit_val c = (of_char c :: nat) - 48"

definition is_space :: "char \<Rightarrow> bool" where
  "is_space c = ((of_char c :: nat) \<in> {9, 10, 11, 12, 13, 32, 133, 160})"

definition strip :: "string \<Rightarrow> string" where
  "strip s = rev (dropWhile is_space (rev (dropWhile is_space s)))"

text \<open>
  Decimal digits with single underscores between them, as \<open>int(str)\<close> reads them;
  a literal of more than 4300 digits is refused.
\<close>

fun digits :: "nat \<Rightarrow> string \<Rightarrow> nat option" where
  "digits acc [] = Some acc"
| "digits acc (c # cs) =
     (if is_digit c then digits (10 * acc + digit_val c) cs
      else if c = CHR ''_'' \<and> cs \<noteq> [] \<and> is_digit (hd cs) then digits acc cs
      else None)"

definition nat_literal :: "string \<Rightarrow> nat option" where
  "nat_literal s =
     (case s of [] \<Rightarrow> None
      | c # cs \<Rightarrow> if is_digit c \<and> length (filter is_digit s) \<le> 4300 then digits 0 s else None)"

definition int_of_str :: "string \<Rightarrow> int option" where
  "int_of_str s =
     (case strip s of
        [] \<Rightarrow> None
      | c # cs \<Rightarrow>
          if c = CHR ''-'' then map_option (\<lambda>n. - int n) (nat_literal cs)
          else if c = CHR ''+'' then map_option int (nat_literal cs)
          else map_option int (nat_literal (c # cs)))"

text \<open>\<open>int(x)\<close>: a float is truncated towards zero, a string is parsed, \<open>None\<close> is refused.\<close>

fun py_int :: "pval \<Rightarrow> error + int" where
  "py_int (PInt i) = Inr i"
| "py_int (PBool b) = Inr (if b then 1 else 0)"
| "py_int (PFloat (Finite x)) = Inr (if 0 \<le> x then \<lfloor>x\<rfloor> else \<lceil>x\<rceil>)"
| "py_int (PFloat NaN) = Inl ValueError"
| "py_int (PFloat PosInf) = Inl OverflowError"
| "py_int (PFloat NegInf) = Inl OverflowError"
| "py_int (PStr s) = (case int_of_str s of None \<Rightarrow> Inl ValueError | Some i \<Rightarrow> Inr i)"
| "py_int PNone = Inl TypeError"

text \<open>
  \<open>float(x)\<close>: an integer is rounded to the nearest double, and one beyond the range of
  the doubles overflows.
\<close>

fun py_float :: "env \<Rightarrow> pval \<Rightarrow> error + pyfloat" where
  "py_float rt (PFloat f) = Inr f"
| "py_float rt (PInt i) =
     (if 2 ^ 1024 - 2 ^ 970 \<le> \<bar>i\<bar> then Inl OverflowError
      else Inr (Finite (round_double rt (of_int i))))"
| "py_float rt (PBool b) = Inr (Finite (if b then 1 else 0))"
| "py_float rt (PStr s) =
     (case float_of_str rt s of None \<Rightarrow> Inl ValueError | Some f \<Rightarrow> Inr f)"
| "py_float rt PNone = Inl TypeError"

text \<open>Decimal printing of integers, as an f-string does.\<close>

definition digit_char :: "nat \<Rightarrow> char" where
  "digit_char d = ''0123456789'' ! d"

fun show_nat :: "nat \<Rightarrow> string" where
  "show_nat n =
     (if n < 10 then [digit_char n]
      else show_nat (n div 10) @ [digit_char (n mod 10)])"

declare show_nat.simps [simp del]

definition show_int :: "int \<Rightarrow> string" where
  "show_int i = (if i < 0 then CHR ''-'' # show_nat (nat (- i)) else show_nat (nat i))"

fun py_str :: "env \<Rightarrow> pval \<Rightarrow> string" where
  "py_str rt (PStr s) = s"
| "py_str rt (PInt i) = show_int i"
| "py_str rt (PBool b) = (if b then ''True'' else ''False'')"
| "py_str rt PNone = ''None''"
| "py_str rt (PFloat f) = float_repr rt f"

text \<open>
  \<open>details.get(k)\<close> for a key taken from the rule's parameters: the keys of \<open>details\<close>
  are strings, so a key that is not a string finds nothing.
\<close>

fun details_get :: "(string \<rightharpoonup> string) \<Rightarrow> pval \<Rightarrow> string option" where
  "details_get d (PStr k) = d k"
| "details_get d v = None"

text \<open>Python's \<open>==\<close> between a looked-up field (a string or \<open>None\<close>) and a parameter.\<close>

fun field_eq :: "string option \<Rightarrow> pval \<Rightarrow> bool" where
  "field_eq None PNone = True"
| "field_eq (Some s) (PStr t) = (s = t)"
| "field_eq x v = False"

section \<open>Window eviction and entropy\<close>

type_synonym bucket = "event list"

text \<open>
  The range of \<open>datetime\<close>, from the first second of year 1 to the last second of year
  9999, as seconds of the epoch.
\<close>

definition datetime_min :: int where
  "datetime_min = - 62135596800"

definition datetime_max :: int where
  "datetime_max = 253402300799"

definition is_datetime :: "int \<Rightarrow> bool" where
  "is_datetime t = (datetime_min \<le> t \<and> t \<le> datetime_max)"

text \<open>
  \<open>timedelta(minutes=m)\<close>, in seconds: a \<open>timedelta\<close> holds at most 999999999 days
  either way, and a longer one raises.
\<close>

definition timedelta_minutes :: "int \<Rightarrow> error + int" where
  "timedelta_minutes m =
     (if - 999999999 \<le> m div 1440 \<and> m div 1440 \<le> 999999999 then Inr (60 * m)
      else Inl OverflowError)"

text \<open>\<open>t - d\<close> for a \<open>datetime\<close> and a \<open>timedelta\<close>: a result outside the range raises.\<close>

definition datetime_sub :: "int \<Rightarrow> int \<Rightarrow> error + int" where
  "datetime_sub t d = (if is_datetime (t - d) then Inr (t - d) else Inl OverflowError)"

text \<open>
  \<open>_evict_old\<close>: compute the cutoff, then pop from the left while the oldest entry is
  before it. The deque is a list with its left end first. When the cutoff cannot be
  computed the function raises and the deque stays as it was given.
\<close>

definition evict_old :: "bucket \<Rightarrow> int \<Rightarrow> int \<Rightarrow> error + bucket" where
  "evict_old bucket current_ts window_minutes =
     (case timedelta_minutes window_minutes of
        Inl e \<Rightarrow> Inl e
      | Inr delta \<Rightarrow>
          (case datetime_sub current_ts delta of
             Inl e \<Rightarrow> Inl e
           | Inr cutoff \<Rightarrow> Inr (dropWhile (\<lambda>e. timestamp e < cutoff) bucket)))"

text \<open>
  \<open>_shannon_entropy\<close>. The counting loop fills a dict, kept in insertion order; the
  second loop runs over its values in that order, in double arithmetic: the quotient,
  the logarithm, the product and the difference are each one rounded operation.
\<close>

fun bump :: "char \<Rightarrow> (char \<times> nat) list \<Rightarrow> (char \<times> nat) list" where
  "bump c [] = [(c, 1)]"
| "bump c ((d, n) # m) = (if c = d then (d, n + 1) # m else (d, n) # bump c m)"

definition char_counts :: "string \<Rightarrow> (char \<times> nat) list" where
  "char_counts v = foldl (\<lambda>counts c. bump c counts) [] v"

definition shannon_entropy :: "env \<Rightarrow> string \<Rightarrow> real" where
  "shannon_entropy rt v =
     foldl (\<lambda>entropy (c, count).
              let p = round_double rt (real count / real (length v))
              in round_double rt (entropy - round_double rt (p * libm_log2 rt p)))
       0 (char_counts v)"

text \<open>\<open>x >= y\<close> for a float \<open>x\<close> that is finite and a float \<open>y\<close> that may not be.\<close>

fun float_ge :: "real \<Rightarrow> pyfloat \<Rightarrow> bool" where
  "float_ge x (Finite y) = (y \<le> x)"
| "float_ge x NegInf = True"
| "float_ge x PosInf = False"
| "float_ge x NaN = False"

section \<open>Detection handlers\<close>

text \<open>
  A handler receives the rule's partition of the window store (a dict from grouping key
  to deque), the rule and one event, and is a generator that yields at most one alert.
  Its run ends in one of three ways:
  \<^item> \<open>Returned s\<close>: it returns without an alert and leaves the partition \<open>s\<close>;
  \<^item> \<open>Yielded a s s'\<close>: it yields the alert \<open>a\<close> while the partition is \<open>s\<close>, and
    when its consumer resumes it, it runs to its end and leaves \<open>s'\<close> (the windowed
    handlers clear the bucket only then);
  \<^item> \<open>Raised e s\<close>: it raises \<open>e\<close> and leaves the partition \<open>s\<close>.

  A coercion of a parameter that fails raises before the event is read. The cutoff is
  computed after the event has been appended, so when that raises the bucket holds the
  new event and nothing has been evicted.
\<close>

type_synonym rule_state = "string \<rightharpoonup> bucket"

datatype outcome =
    Returned rule_state
  | Yielded alert rule_state rule_state
  | Raised error rule_state

text \<open>The partition a run leaves behind, and the exception that ended it.\<close>

fun final_state :: "outcome \<Rightarrow> rule_state" where
  "final_state (Returned s) = s"
| "final_state (Yielded a s s') = s'"
| "final_state (Raised e s) = s"

fun raised_error :: "outcome \<Rightarrow> error option" where
  "raised_error (Returned s) = None"
| "raised_error (Yielded a s s') = None"
| "raised_error (Raised e s) = Some e"

definition bucket_of :: "rule_state \<Rightarrow> string \<Rightarrow> bucket" where
  "bucket_of state key = dict_get state key []"

definition group_key :: "event \<Rightarrow> pval \<Rightarrow> string" where
  "group_key ev group_by =
     (case details_get (details ev) group_by of None \<Rightarrow> ''unknown'' | Some k \<Rightarrow> k)"

definition handle_failed_login :: "env \<Rightarrow> rule_state \<Rightarrow> rule \<Rightarrow> event \<Rightarrow> outcome" where
  "handle_failed_login rt state r ev =
     (let params = parameters r;
          cat = dict_get params ''event_category'' (PStr ''auth'');
          match_field = dict_get params ''match_field'' (PStr ''result'');
          match_value = dict_get params ''match_value'' (PStr ''failed'');
          group_by = dict_get params ''group_by'' (PStr ''username'')
      in case py_int (dict_get params ''threshold'' (PInt 5)) of
           Inl e \<Rightarrow> Raised e state
         | Inr threshold \<Rightarrow>
        (case py_int (dict_get params ''window_minutes'' (PInt 10)) of
           Inl e \<Rightarrow> Raised e state
         | Inr window_minutes \<Rightarrow>
             if PStr (category ev) \<noteq> cat then Returned state
             else if \<not> field_eq (details_get (details ev) match_field) match_value
               then Returned state
             else
               let key = group_key ev group_by;
                   appended = bucket_of state key @ [ev]
               in case evict_old appended (timestamp ev) window_minutes of
                    Inl e \<Rightarrow> Raised e (state(key \<mapsto> appended))
                  | Inr bucket \<Rightarrow>
                      if threshold \<le> int (length bucket) then
                        Yielded
                          \<lparr>alert_id = rule_id r @ '':'' @ key @ '':'' @ show_int (timestamp ev),
                           created_at = now rt,
                           title = rule_name r @ '' for '' @ key,
                           description = ''Detected '' @ show_nat (length bucket)
                             @ '' failed logins for '' @ key @ '' within ''
                             @ show_int window_minutes @ '' minutes.'',
                           priority = rule_severity r,
                           events = bucket,
                           remediation = rule_remediation r\<rparr>
                          (state(key \<mapsto> bucket))
                          (state(key \<mapsto> []))
                      else Returned (state(key \<mapsto> bucket))))"

definition handle_port_scan :: "env \<Rightarrow> rule_state \<Rightarrow> rule \<Rightarrow> event \<Rightarrow> outcome" where
  "handle_port_scan rt state r ev =
     (let params = parameters r;
          cat = dict_get params ''event_category'' (PStr ''network'');
          group_by = dict_get params ''group_by'' (PStr ''src_ip'');
          distinct_field = dict_get params ''distinct_field'' (PStr ''dest_port'')
      in case py_int (dict_get params ''threshold'' (PInt 15)) of
           Inl e \<Rightarrow> Raised e state
         | Inr threshold \<Rightarrow>
        (case py_int (dict_get params ''window_minutes'' (PInt 5)) of
           Inl e \<Rightarrow> Raised e state
         | Inr window_minutes \<Rightarrow>
             if PStr (category ev) \<noteq> cat then Returned state
             else
               let key = group_key ev group_by;
                   appended = bucket_of state key @ [ev]
               in case evict_old appended (timestamp ev) window_minutes of
                    Inl e \<Rightarrow> Raised e (state(key \<mapsto> appended))
                  | Inr bucket \<Rightarrow>
                      let unique_values =
                            (\<lambda>e. details_get (details e) distinct_field) ` set bucket
                      in if threshold \<le> int (card unique_values) then
                           Yielded
                             \<lparr>alert_id = rule_id r @ '':'' @ key @ '':''
                                @ show_int (timestamp ev),
                              created_at = now rt,
                              title = rule_name r @ '' from '' @ key,
                              description = ''Observed potential port scan with ''
                                @ show_nat (card unique_values) @ '' unique ''
                                @ py_str rt distinct_field @ '' values.'',
                              priority = rule_severity r,
                              events = bucket,
                              remediation = rule_remediation r\<rparr>
                             (state(key \<mapsto> bucket))
                             (state(key \<mapsto> []))
                         else Returned (state(key \<mapsto> bucket))))"

definition handle_dns_anomaly :: "env \<Rightarrow> rule_state \<Rightarrow> rule \<Rightarrow> event \<Rightarrow> outcome" where
  "handle_dns_anomaly rt state r ev =
     (let params = parameters r;
          cat = dict_get params ''event_category'' (PStr ''dns'')
      in case py_int (dict_get params ''length_threshold'' (PInt 45)) of
           Inl e \<Rightarrow> Raised e state
         | Inr length_threshold \<Rightarrow>
        (case py_float rt (dict_get params ''entropy_threshold'' (PFloat (Finite 3.5))) of
           Inl e \<Rightarrow> Raised e state
         | Inr entropy_threshold \<Rightarrow>
             if PStr (category ev) \<noteq> cat then Returned state
             else
               (case details ev ''query'' of
                  None \<Rightarrow> Returned state
                | Some domain \<Rightarrow>
                    if domain = [] then Returned state
                    else if length_threshold \<le> int (length domain)
                            \<or> float_ge (shannon_entropy rt domain) entropy_threshold then
                      Yielded
                        \<lparr>alert_id = rule_id r @ '':'' @ domain @ '':''
                           @ show_int (timestamp ev),
                         created_at = now rt,
                         title = rule_name r @ '' - suspicious domain '' @ domain,
                         description = ''Detected DNS query that may indicate tunneling activity due to long or high entropy domain name.'',
                         priority = rule_severity r,
                         events = [ev],
                         remediation = rule_remediation r\<rparr>
                        state state
                    else Returned state)))"

text \<open>The registry \<open>_HANDLERS\<close>, read with \<open>.get\<close>.\<close>

definition HANDLERS ::
  "string \<rightharpoonup> (env \<Rightarrow> rule_state \<Rightarrow> rule \<Rightarrow> event \<Rightarrow> outcome)" where
  "HANDLERS =
     [''failed_login_threshold'' \<mapsto> handle_failed_login,
      ''port_scan'' \<mapsto> handle_port_scan,
      ''dns_anomaly'' \<mapsto> handle_dns_anomaly]"

section \<open>Detection engine\<close>

text \<open>
  The window store is the nested \<open>defaultdict\<close>: rule id, then grouping key. Reading
  \<open>self.state[rule.id]\<close> creates the rule's partition when it is absent, and that
  happens before the handler runs.
\<close>

type_synonym store = "string \<rightharpoonup> rule_state"

record engine =
  rules :: "rule list"
  state :: store

definition DetectionEngine :: "rule list \<Rightarrow> engine" where
  "DetectionEngine rs = \<lparr>rules = filter enabled rs, state = Map.empty\<rparr>"

text \<open>
  One turn of the inner loop of \<open>process\<close>, \<open>yield from handler(...)\<close>, for a consumer
  that resumes the generator after each alert. The result holds the alerts yielded,
  each with the store as it is while the generator is suspended at that alert; the
  store when the turn is over; and the exception that ended the turn, if any.
\<close>

definition process_rule ::
  "env \<Rightarrow> store \<Rightarrow> rule \<Rightarrow> event \<Rightarrow> (alert \<times> store) list \<times> store \<times> error option" where
  "process_rule rt st r ev =
     (case HANDLERS (rule_type r) of
        None \<Rightarrow> ([], st, None)
      | Some handler \<Rightarrow>
          let part = dict_get st (rule_id r) Map.empty
          in case handler rt part r ev of
               Returned part' \<Rightarrow> ([], st(rule_id r \<mapsto> part'), None)
             | Yielded a suspended part' \<Rightarrow>
                 ([(a, st(rule_id r \<mapsto> suspended))], st(rule_id r \<mapsto> part'), None)
             | Raised e part' \<Rightarrow> ([], st(rule_id r \<mapsto> part'), Some e))"

text \<open>
  The loops of \<open>process\<close>, run to the end of the input or to the first exception, as
  a consumer that drains the generator runs them (\<open>main\<close> does, with \<open>list\<close>). The
  alerts yielded before an exception have reached the consumer and the store keeps what
  was written. A consumer that stops at an alert leaves the engine with the store
  paired with that alert.
\<close>

fun process_rules ::
  "env \<Rightarrow> store \<Rightarrow> rule list \<Rightarrow> event \<Rightarrow> (alert \<times> store) list \<times> store \<times> error option" where
  "process_rules rt st [] ev = ([], st, None)"
| "process_rules rt st (r # rs) ev =
     (case process_rule rt st r ev of
        (alerts, st', Some e) \<Rightarrow> (alerts, st', Some e)
      | (alerts, st', None) \<Rightarrow>
          (case process_rules rt st' rs ev of
             (rest, st'', err) \<Rightarrow> (alerts @ rest, st'', err)))"

fun process ::
  "env \<Rightarrow> engine \<Rightarrow> event list \<Rightarrow> (alert \<times> store) list \<times> engine \<times> error option" where
  "process rt eng [] = ([], eng, None)"
| "process rt eng (ev # evs) =
     (case process_rules rt (state eng) (rules eng) ev of
        (alerts, st', Some e) \<Rightarrow> (alerts, eng\<lparr>state := st'\<rparr>, Some e)
      | (alerts, st', None) \<Rightarrow>
          (case process rt (eng\<lparr>state := st'\<rparr>) evs of
             (rest, eng', err) \<Rightarrow> (alerts @ rest, eng', err)))"

section \<open>Notions used to state the properties\<close>

text \<open>
  The window length a windowed rule works with: both windowed handlers read
  \<open>int(params.get("window_minutes", d))\<close>, the port-scan handler with the default 5,
  the failed-login handler with the default 10.
\<close>

definition window_minutes_of :: "rule \<Rightarrow> error + int" where
  "window_minutes_of r =
     py_int (dict_get (parameters r) ''window_minutes''
       (if rule_type r = ''port_scan'' then PInt 5 else PInt 10))"

text \<open>
  The filter of the failed-login handler (the event's category is the rule's
  \<open>event_category\<close> and \<open>details[match_field]\<close> is \<open>match_value\<close>) and the grouping
  key it derives, each with the handler's defaults.
\<close>

definition login_match :: "rule \<Rightarrow> event \<Rightarrow> bool" where
  "login_match r ev =
     (PStr (category ev) = dict_get (parameters r) ''event_category'' (PStr ''auth'') \<and>
      field_eq (details_get (details ev) (dict_get (parameters r) ''match_field'' (PStr ''result'')))
        (dict_get (parameters r) ''match_value'' (PStr ''failed'')))"

definition login_key :: "rule \<Rightarrow> event \<Rightarrow> string" where
  "login_key r ev = group_key ev (dict_get (parameters r) ''group_by'' (PStr ''username''))"


text \<open>
  A bucket lies within a window of \<open>W\<close> minutes when no event in it is more than
  \<open>W\<close> minutes older than any other, the latest included.
\<close>

definition within_window :: "int \<Rightarrow> bucket \<Rightarrow> bool" where
  "within_window W b = (\<forall>e\<in>set b. \<forall>e'\<in>set b. timestamp e' - 60 * W \<le> timestamp e)"

text \<open>
  What eviction relies on when the input is in time order: a bucket holds its events in
  non-decreasing order of timestamp, each a \<open>datetime\<close> and none later than the last
  event processed. The two notions after it lift the bucket properties to the store.
\<close>

definition ordered_upto :: "int \<Rightarrow> bucket \<Rightarrow> bool" where
  "ordered_upto t b =
     (sorted (map timestamp b) \<and> (\<forall>e\<in>set b. is_datetime (timestamp e) \<and> timestamp e \<le> t))"

definition store_ordered :: "int \<Rightarrow> store \<Rightarrow> bool" where
  "store_ordered t st =
     (\<forall>rid part key b. st rid = Some part \<longrightarrow> part key = Some b \<longrightarrow> ordered_upto t b)"

definition rule_windowed :: "rule \<Rightarrow> int \<Rightarrow> store \<Rightarrow> bool" where
  "rule_windowed r W st =
     (\<forall>part key b. st (rule_id r) = Some part \<longrightarrow> part key = Some b \<longrightarrow> within_window W b)"

text \<open>
  The stores an engine passes through between the turns of its inner loop, while no
  turn has raised and the consumer has resumed the generator after every alert: the
  empty store of a new engine, and the store at the end of one more such turn, for any
  rule of the engine and any event.
\<close>

inductive reachable :: "env \<Rightarrow> rule list \<Rightarrow> store \<Rightarrow> bool" for rt :: env and rs :: "rule list" where
  fresh: "reachable rt rs Map.empty"
| turn: "reachable rt rs st \<Longrightarrow> r \<in> set rs \<Longrightarrow> process_rule rt st r ev = (alerts, st', None)
         \<Longrightarrow> reachable rt rs st'"

section \<open>Sample inputs\<close>

text \<open>
  A runtime, a rule and an event for the examples below. The runtime rounds nothing
  and has the exact logarithm: it agrees with the arithmetic of doubles wherever each
  exact result is a double, as in the examples.
\<close>

definition rt0 :: env where
  "rt0 = \<lparr>now = 0, float_of_str = (\<lambda>s. None), float_repr = (\<lambda>f. ''nan''),
          round_double = (\<lambda>x. x), libm_log2 = log 2\<rparr>"

definition sample_rule :: "string \<Rightarrow> (string \<rightharpoonup> pval) \<Rightarrow> rule" where
  "sample_rule ty params =
     \<lparr>rule_id = ''r1'', rule_name = ''Sample rule'', rule_type = ty,
      rule_description = ''A rule for the examples'', rule_severity = ''high'',
      enabled = True, parameters = params, rule_remediation = None\<rparr>"

definition sample_event :: "int \<Rightarrow> string \<Rightarrow> (string \<rightharpoonup> string) \<Rightarrow> event" where
  "sample_event t cat d =
     \<lparr>timestamp = t, source = ''sample.log'', category = cat, severity = ''info'',
      details = d\<rparr>"

text \<open>
  A port-scan rule that also carries \<open>match_field\<close> and \<open>match_value\<close>, and a
  network event whose \<open>action\<close> is \<open>allow\<close>, with or without a \<open>dest_port\<close>.
\<close>

definition scan_rule :: "int \<Rightarrow> rule" where
  "scan_rule T = sample_rule ''port_scan''
     [''match_field'' \<mapsto> PStr ''action'', ''match_value'' \<mapsto> PStr ''deny'',
      ''threshold'' \<mapsto> PInt T]"

definition probe :: "int \<Rightarrow> string option \<Rightarrow> event" where
  "probe t port = sample_event t ''network''
     ((\<lambda>k. if k = ''dest_port'' then port else None)
        (''src_ip'' \<mapsto> ''10.0.0.9'', ''action'' \<mapsto> ''allow''))"

text \<open>A DNS rule with the two thresholds given, and a DNS query event.\<close>

definition dns_rule :: "int \<Rightarrow> real \<Rightarrow> rule" where
  "dns_rule L E = sample_rule ''dns_anomaly''
     [''length_threshold'' \<mapsto> PInt L, ''entropy_threshold'' \<mapsto> PFloat (Finite E)]"


text \<open>A failed-login rule with its threshold and window, and a failed login of \<open>alice\<close>.\<close>

definition login_rule :: "int \<Rightarrow> int \<Rightarrow> rule" where
  "login_rule T W = sample_rule ''failed_login_threshold''
     [''threshold'' \<mapsto> PInt T, ''window_minutes'' \<mapsto> PInt W]"

definition failed_login :: "int \<Rightarrow> event" where
  "failed_login t = sample_event t ''auth''
     [''username'' \<mapsto> ''alice'', ''result'' \<mapsto> ''failed'']"

lemmas sample_defs = rt0_def sample_rule_def sample_event_def

lemmas py_eval = dict_get_def int_of_str_def strip_def is_space_def nat_literal_def
  is_digit_def digit_val_def show_int_def show_nat.simps digit_char_def Let_def

lemmas evict_eval = evict_old_def timedelta_minutes_def datetime_sub_def is_datetime_def
  datetime_min_def datetime_max_def

section \<open>Eviction\<close>



lemma evict_old_Inr:
  assumes "evict_old b t w = Inr b'"
  shows "b' = dropWhile (\<lambda>e. timestamp e < t - 60 * w) b"
  using assms
  by (auto simp: evict_old_def timedelta_minutes_def datetime_sub_def split: if_splits)

lemma evict_old_Inl:
  assumes "evict_old b t w = Inl e"
  shows "e = OverflowError \<and>
         (w div 1440 < - 999999999 \<or> 999999999 < w div 1440 \<or> \<not> is_datetime (t - 60 * w))"
  using assms
  by (auto simp: evict_old_def timedelta_minutes_def datetime_sub_def split: if_splits)

lemma evict_old_subset: "evict_old b t w = Inr b' \<Longrightarrow> set b' \<subseteq> set b"
  by (auto dest!: evict_old_Inr dest: set_dropWhileD)


lemma sorted_dropWhile_timestamp:
  "sorted (map timestamp b) \<Longrightarrow> sorted (map timestamp (dropWhile P b))"
  by (induction b) auto

lemma dropWhile_cutoff:
  "sorted (map timestamp b) \<Longrightarrow> e \<in> set (dropWhile (\<lambda>e. timestamp e < c) b)
   \<Longrightarrow> c \<le> timestamp e"
  by (induction b) (auto split: if_splits)

lemma evict_old_sorted:
  "sorted (map timestamp b) \<Longrightarrow> evict_old b t w = Inr b' \<Longrightarrow> sorted (map timestamp b')"
  by (auto dest!: evict_old_Inr simp: sorted_dropWhile_timestamp)

lemma evict_old_cutoff:
  "sorted (map timestamp b) \<Longrightarrow> evict_old b t w = Inr b' \<Longrightarrow> e \<in> set b'
   \<Longrightarrow> t - 60 * w \<le> timestamp e"
  by (auto dest!: evict_old_Inr dest: dropWhile_cutoff)


text \<open>When the cutoff of a window that is not negative cannot be computed, it lies before
  every datetime.\<close>

lemma evict_old_Inl_before:
  assumes "evict_old b t w = Inl e" and "0 \<le> w" and "is_datetime t" and "is_datetime t'"
  shows "t - 60 * w \<le> t'"
proof -
  from evict_old_Inl [OF assms(1)] assms(2)
  have "999999999 < w div 1440 \<or> \<not> is_datetime (t - 60 * w)" by auto
  then show ?thesis
  proof
    assume "999999999 < w div 1440"
    moreover have "w = 1440 * (w div 1440) + w mod 1440" by simp
    moreover have "0 \<le> w mod 1440" by simp
    ultimately have "1440 * 999999999 < w" by linarith
    with assms(3,4) show ?thesis
      by (simp add: is_datetime_def datetime_min_def datetime_max_def)
  next
    assume "\<not> is_datetime (t - 60 * w)"
    with assms(2,3,4) show ?thesis
      by (simp add: is_datetime_def datetime_min_def datetime_max_def)
  qed
qed


text \<open>
  Two windows whose cutoff is not a \<open>datetime\<close>: the handler raises after it has
  appended the event, and the bucket keeps it.
\<close>

lemma window_overflow_example:
  "process_rule rt0 Map.empty (login_rule 1 2147483648) (failed_login 0)
   = ([], [''r1'' \<mapsto> [''alice'' \<mapsto> [failed_login 0]]], Some OverflowError)"
  by (simp add: login_rule_def failed_login_def sample_defs process_rule_def HANDLERS_def
      handle_failed_login_def group_key_def bucket_of_def evict_eval py_eval)

lemma negative_window_overflow_example:
  "process_rule rt0 Map.empty (login_rule 1 (- 5000000000)) (failed_login 0)
   = ([], [''r1'' \<mapsto> [''alice'' \<mapsto> [failed_login 0]]], Some OverflowError)"
  by (simp add: login_rule_def failed_login_def sample_defs process_rule_def HANDLERS_def
      handle_failed_login_def group_key_def bucket_of_def evict_eval py_eval)

lemma cutoff_range_examples:
  "evict_old [] datetime_min 0 = Inr []"
  "evict_old [] datetime_min 1 = Inl OverflowError"
  "evict_old [] datetime_max (- 1) = Inl OverflowError"
  "evict_old [] 0 (999999999 * 1440 + 1440) = Inl OverflowError"
  by (simp_all add: evict_eval)

section \<open>The runs of the handlers\<close>

lemma handle_failed_login_run:
  assumes "py_int (dict_get (parameters r) ''threshold'' (PInt 5)) = Inr T"
    and "py_int (dict_get (parameters r) ''window_minutes'' (PInt 10)) = Inr W"
  shows "(\<not> login_match r ev \<and> handle_failed_login rt part r ev = Returned part) \<or>
         (login_match r ev \<and>
          (case evict_old (bucket_of part (login_key r ev) @ [ev]) (timestamp ev) W of
             Inl e \<Rightarrow> handle_failed_login rt part r ev
                        = Raised e (part(login_key r ev \<mapsto> bucket_of part (login_key r ev) @ [ev]))
           | Inr bucket \<Rightarrow>
               if T \<le> int (length bucket)
               then \<exists>a. handle_failed_login rt part r ev
                          = Yielded a (part(login_key r ev \<mapsto> bucket)) (part(login_key r ev \<mapsto> []))
                        \<and> events a = bucket
               else handle_failed_login rt part r ev = Returned (part(login_key r ev \<mapsto> bucket))))"
  using assms
  by (simp add: handle_failed_login_def login_match_def login_key_def Let_def split: sum.splits)

lemma handle_failed_login_refused:
  assumes "py_int (dict_get (parameters r) ''threshold'' (PInt 5)) = Inl e \<or>
           py_int (dict_get (parameters r) ''window_minutes'' (PInt 10)) = Inl e"
  shows "\<exists>e'. handle_failed_login rt part r ev = Raised e' part"
  using assms by (auto simp: handle_failed_login_def Let_def split: sum.splits)

lemma handle_port_scan_run:
  assumes "py_int (dict_get (parameters r) ''threshold'' (PInt 15)) = Inr T"
    and "py_int (dict_get (parameters r) ''window_minutes'' (PInt 5)) = Inr W"
    and "key = group_key ev (dict_get (parameters r) ''group_by'' (PStr ''src_ip''))"
  shows "(PStr (category ev) \<noteq> dict_get (parameters r) ''event_category'' (PStr ''network'') \<and>
          handle_port_scan rt part r ev = Returned part) \<or>
         (PStr (category ev) = dict_get (parameters r) ''event_category'' (PStr ''network'') \<and>
          (case evict_old (bucket_of part key @ [ev]) (timestamp ev) W of
             Inl e \<Rightarrow> handle_port_scan rt part r ev
                        = Raised e (part(key \<mapsto> bucket_of part key @ [ev]))
           | Inr bucket \<Rightarrow>
               if T \<le> int (card ((\<lambda>e. details_get (details e)
                      (dict_get (parameters r) ''distinct_field'' (PStr ''dest_port''))) ` set bucket))
               then \<exists>a. handle_port_scan rt part r ev
                          = Yielded a (part(key \<mapsto> bucket)) (part(key \<mapsto> []))
                        \<and> events a = bucket
               else handle_port_scan rt part r ev = Returned (part(key \<mapsto> bucket))))"
  using assms
  by (simp add: handle_port_scan_def Let_def split: sum.splits)

lemma handle_port_scan_refused:
  assumes "py_int (dict_get (parameters r) ''threshold'' (PInt 15)) = Inl e \<or>
           py_int (dict_get (parameters r) ''window_minutes'' (PInt 5)) = Inl e"
  shows "\<exists>e'. handle_port_scan rt part r ev = Raised e' part"
  using assms by (auto simp: handle_port_scan_def Let_def split: sum.splits)

lemma handle_dns_anomaly_state:
  "(\<exists>e. handle_dns_anomaly rt part r ev = Raised e part) \<or>
   handle_dns_anomaly rt part r ev = Returned part \<or>
   (\<exists>a. handle_dns_anomaly rt part r ev = Yielded a part part \<and> events a = [ev])"
  by (simp add: handle_dns_anomaly_def Let_def split: sum.splits option.splits)

lemma HANDLERS_cases:
  assumes "HANDLERS ty = Some h"
  shows "(ty = ''failed_login_threshold'' \<and> h = handle_failed_login) \<or>
         (ty = ''port_scan'' \<and> h = handle_port_scan) \<or>
         (ty = ''dns_anomaly'' \<and> h = handle_dns_anomaly)"
  using assms by (auto simp: HANDLERS_def split: if_splits)

text \<open>
  What a handler can do to its partition: nothing; or write one bucket, which is then
  empty, or the old bucket with the event appended and the stale entries evicted, or,
  when the cutoff cannot be computed, the old bucket with the event appended.
\<close>

lemma handle_failed_login_shape:
  "final_state (handle_failed_login rt part r ev) = part \<or>
   (\<exists>key W. py_int (dict_get (parameters r) ''window_minutes'' (PInt 10)) = Inr W \<and>
      (final_state (handle_failed_login rt part r ev) = part(key \<mapsto> []) \<or>
       (\<exists>b. evict_old (bucket_of part key @ [ev]) (timestamp ev) W = Inr b \<and>
            final_state (handle_failed_login rt part r ev) = part(key \<mapsto> b)) \<or>
       (\<exists>e. evict_old (bucket_of part key @ [ev]) (timestamp ev) W = Inl e \<and>
            raised_error (handle_failed_login rt part r ev) = Some e \<and>
            final_state (handle_failed_login rt part r ev)
              = part(key \<mapsto> bucket_of part key @ [ev]))))"
  (is "?same \<or> ?written")
proof (cases "py_int (dict_get (parameters r) ''threshold'' (PInt 5))")
  case (Inl e)
  with handle_failed_login_refused [of r e rt part ev] show ?thesis by auto
next
  case T: (Inr T)
  show ?thesis
  proof (cases "py_int (dict_get (parameters r) ''window_minutes'' (PInt 10))")
    case (Inl e)
    with handle_failed_login_refused [of r e rt part ev] show ?thesis by auto
  next
    case W: (Inr W)
    let ?key = "login_key r ev"
    note run = handle_failed_login_run [OF T W, of ev rt part]
    show ?thesis
    proof (cases "login_match r ev")
      case False
      with run show ?thesis by simp
    next
      case True
      show ?thesis
      proof (cases "evict_old (bucket_of part ?key @ [ev]) (timestamp ev) W")
        case (Inl e)
        with run True have "handle_failed_login rt part r ev
            = Raised e (part(?key \<mapsto> bucket_of part ?key @ [ev]))" by simp
        with Inl W have ?written
          by (intro exI [of _ ?key] exI [of _ W]) simp
        then show ?thesis ..
      next
        case (Inr b)
        show ?thesis
        proof (cases "T \<le> int (length b)")
          case ge: True
          with run True Inr have "final_state (handle_failed_login rt part r ev)
              = part(?key \<mapsto> [])" by auto
          with W have ?written
            by (intro exI [of _ ?key] exI [of _ W]) simp
          then show ?thesis ..
        next
          case lt: False
          with run True Inr have "handle_failed_login rt part r ev
              = Returned (part(?key \<mapsto> b))" by simp
          with Inr W have ?written
            by (intro exI [of _ ?key] exI [of _ W]) simp
          then show ?thesis ..
        qed
      qed
    qed
  qed
qed

lemma handle_port_scan_shape:
  "final_state (handle_port_scan rt part r ev) = part \<or>
   (\<exists>key W. py_int (dict_get (parameters r) ''window_minutes'' (PInt 5)) = Inr W \<and>
      (final_state (handle_port_scan rt part r ev) = part(key \<mapsto> []) \<or>
       (\<exists>b. evict_old (bucket_of part key @ [ev]) (timestamp ev) W = Inr b \<and>
            final_state (handle_port_scan rt part r ev) = part(key \<mapsto> b)) \<or>
       (\<exists>e. evict_old (bucket_of part key @ [ev]) (timestamp ev) W = Inl e \<and>
            raised_error (handle_port_scan rt part r ev) = Some e \<and>
            final_state (handle_port_scan rt part r ev)
              = part(key \<mapsto> bucket_of part key @ [ev]))))"
  (is "?same \<or> ?written")
proof (cases "py_int (dict_get (parameters r) ''threshold'' (PInt 15))")
  case (Inl e)
  with handle_port_scan_refused [of r e rt part ev] show ?thesis by auto
next
  case T: (Inr T)
  show ?thesis
  proof (cases "py_int (dict_get (parameters r) ''window_minutes'' (PInt 5))")
    case (Inl e)
    with handle_port_scan_refused [of r e rt part ev] show ?thesis by auto
  next
    case W: (Inr W)
    let ?key = "group_key ev (dict_get (parameters r) ''group_by'' (PStr ''src_ip''))"
    let ?f = "\<lambda>e. details_get (details e)
        (dict_get (parameters r) ''distinct_field'' (PStr ''dest_port''))"
    note run = handle_port_scan_run [OF T W refl, of ev rt part]
    show ?thesis
    proof (cases "PStr (category ev) = dict_get (parameters r) ''event_category'' (PStr ''network'')")
      case False
      with run show ?thesis by simp
    next
      case True
      show ?thesis
      proof (cases "evict_old (bucket_of part ?key @ [ev]) (timestamp ev) W")
        case (Inl e)
        with run True have "handle_port_scan rt part r ev
            = Raised e (part(?key \<mapsto> bucket_of part ?key @ [ev]))" by simp
        with Inl W have ?written
          by (intro exI [of _ ?key] exI [of _ W]) simp
        then show ?thesis ..
      next
        case (Inr b)
        show ?thesis
        proof (cases "T \<le> int (card (?f ` set b))")
          case ge: True
          with run True Inr have "final_state (handle_port_scan rt part r ev)
              = part(?key \<mapsto> [])" by auto
          with W have ?written
            by (intro exI [of _ ?key] exI [of _ W]) simp
          then show ?thesis ..
        next
          case lt: False
          with run True Inr have "handle_port_scan rt part r ev
              = Returned (part(?key \<mapsto> b))" by simp
          with Inr W have ?written
            by (intro exI [of _ ?key] exI [of _ W]) simp
          then show ?thesis ..
        qed
      qed
    qed
  qed
qed

lemma handler_shape:
  assumes "HANDLERS (rule_type r) = Some h"
  shows "final_state (h rt part r ev) = part \<or>
         (\<exists>key W. window_minutes_of r = Inr W \<and>
            (final_state (h rt part r ev) = part(key \<mapsto> []) \<or>
             (\<exists>b. evict_old (bucket_of part key @ [ev]) (timestamp ev) W = Inr b \<and>
                  final_state (h rt part r ev) = part(key \<mapsto> b)) \<or>
             (\<exists>e. evict_old (bucket_of part key @ [ev]) (timestamp ev) W = Inl e \<and>
                  raised_error (h rt part r ev) = Some e \<and>
                  final_state (h rt part r ev) = part(key \<mapsto> bucket_of part key @ [ev]))))"
proof -
  from HANDLERS_cases [OF assms] consider
      "rule_type r = ''failed_login_threshold''" "h = handle_failed_login"
    | "rule_type r = ''port_scan''" "h = handle_port_scan"
    | "rule_type r = ''dns_anomaly''" "h = handle_dns_anomaly"
    by blast
  then show ?thesis
  proof cases
    case 1
    with handle_failed_login_shape [of rt part r ev]
    show ?thesis by (simp add: window_minutes_of_def)
  next
    case 2
    with handle_port_scan_shape [of rt part r ev]
    show ?thesis by (simp add: window_minutes_of_def)
  next
    case 3
    with handle_dns_anomaly_state [of rt part r ev]
    show ?thesis by auto
  qed
qed

lemma process_rule_final:
  assumes "HANDLERS (rule_type r) = Some h"
    and "process_rule rt st r ev = (alerts, st', err)"
  shows "st' = st(rule_id r \<mapsto> final_state (h rt (dict_get st (rule_id r) Map.empty) r ev)) \<and>
         err = raised_error (h rt (dict_get st (rule_id r) Map.empty) r ev)"
  using assms
  by (cases "h rt (dict_get st (rule_id r) Map.empty) r ev") (auto simp: process_rule_def)

lemma process_rule_shape:
  assumes "process_rule rt st r ev = (alerts, st', err)"
  shows "st' = st \<or>
         (\<exists>part'. st' = st(rule_id r \<mapsto> part') \<and>
            (part' = dict_get st (rule_id r) Map.empty \<or>
             (\<exists>key W. window_minutes_of r = Inr W \<and>
               (part' = (dict_get st (rule_id r) Map.empty)(key \<mapsto> []) \<or>
                (\<exists>b. evict_old (bucket_of (dict_get st (rule_id r) Map.empty) key @ [ev])
                        (timestamp ev) W = Inr b \<and>
                     part' = (dict_get st (rule_id r) Map.empty)(key \<mapsto> b)) \<or>
                (\<exists>e. evict_old (bucket_of (dict_get st (rule_id r) Map.empty) key @ [ev])
                        (timestamp ev) W = Inl e \<and> err = Some e \<and>
                     part' = (dict_get st (rule_id r) Map.empty)
                       (key \<mapsto> bucket_of (dict_get st (rule_id r) Map.empty) key @ [ev]))))))"
proof (cases "HANDLERS (rule_type r)")
  case None
  with assms show ?thesis by (simp add: process_rule_def)
next
  case (Some h)
  from process_rule_final [OF Some assms]
  have st': "st' = st(rule_id r \<mapsto> final_state (h rt (dict_get st (rule_id r) Map.empty) r ev))"
    and err: "err = raised_error (h rt (dict_get st (rule_id r) Map.empty) r ev)" by auto
  from handler_shape [OF Some, of rt "dict_get st (rule_id r) Map.empty" ev]
  show ?thesis unfolding st' err by blast
qed

lemma process_rule_other_partition:
  assumes "rule_id r' \<noteq> rid" and "process_rule rt st r' ev = (alerts, st', err)"
  shows "st' rid = st rid"
  using process_rule_shape [OF assms(2)] assms(1) by auto

lemma process_single_rule_step:
  "process rt \<lparr>rules = [r], state = st\<rparr> (ev # evs) =
     (case process_rule rt st r ev of
        (alerts, st', Some e) \<Rightarrow> (alerts, \<lparr>rules = [r], state = st'\<rparr>, Some e)
      | (alerts, st', None) \<Rightarrow>
          (case process rt \<lparr>rules = [r], state = st'\<rparr> evs of
             (rest, eng', err) \<Rightarrow> (alerts @ rest, eng', err)))"
  by (simp split: prod.splits option.splits)

section \<open>Unrecognised rule types\<close>

text \<open>
  C8. A rule whose \<open>rule_type\<close> has no entry in the registry is skipped: one turn of
  the engine under it yields no alert, raises nothing and returns the window store as
  it was, and the engine's pass over the rules for an event is the same with the rule
  as without it.
\<close>

theorem unknown_rule_type_skipped:
  assumes "HANDLERS (rule_type r) = None"
  shows "process_rule rt st r ev = ([], st, None) \<and>
         process_rules rt st (rs1 @ r # rs2) ev = process_rules rt st (rs1 @ rs2) ev"
proof
  show skip: "process_rule rt st r ev = ([], st, None)"
    using assms by (simp add: process_rule_def)
  have "process_rules rt s (r # rs2) ev = process_rules rt s rs2 ev" for s
    using assms by (simp add: process_rule_def split: prod.splits)
  then show "process_rules rt st (rs1 @ r # rs2) ev = process_rules rt st (rs1 @ rs2) ev"
    by (induction rs1 arbitrary: st) (auto split: prod.splits option.splits)
qed

theorem unknown_rule_type_skipped_witness:
  "process_rule rt0 Map.empty (sample_rule ''beaconing'' Map.empty)
     (sample_event 0 ''auth'' Map.empty) = ([], Map.empty, None)"
proof -
  have "HANDLERS (rule_type (sample_rule ''beaconing'' Map.empty)) = None"
    by (simp add: HANDLERS_def sample_rule_def)
  from unknown_rule_type_skipped [OF this, of rt0 Map.empty "sample_event 0 ''auth'' Map.empty"]
  show ?thesis by simp
qed

section \<open>Disabled rules\<close>

text \<open>
  C7. A rule with \<open>enabled = False\<close> is inert: the engine built from a rule set that
  holds it is the engine built without it, so for every event sequence the alerts, the
  final window store and the error are those of the run without the rule.
\<close>

theorem disabled_rule_inert:
  assumes "\<not> enabled r"
  shows "DetectionEngine (rs1 @ r # rs2) = DetectionEngine (rs1 @ rs2) \<and>
         process rt (DetectionEngine (rs1 @ r # rs2)) evs
           = process rt (DetectionEngine (rs1 @ rs2)) evs"
  using assms by (simp add: DetectionEngine_def)

theorem disabled_rule_inert_witness:
  "process rt0 (DetectionEngine [(sample_rule ''failed_login_threshold'' Map.empty)\<lparr>enabled := False\<rparr>])
     [sample_event 0 ''auth'' [''result'' \<mapsto> ''failed'']]
   = ([], \<lparr>rules = [], state = Map.empty\<rparr>, None)"
proof -
  have "\<not> enabled ((sample_rule ''failed_login_threshold'' Map.empty)\<lparr>enabled := False\<rparr>)"
    by simp
  from disabled_rule_inert [OF this, of "[]" "[]" rt0
      "[sample_event 0 ''auth'' [''result'' \<mapsto> ''failed'']]"]
  show ?thesis by (simp add: DetectionEngine_def)
qed

section \<open>Parameters that cannot be coerced\<close>

lemma int_of_str_examples:
  "int_of_str ''  42 '' = Some 42"
  "int_of_str ''-1_000'' = Some (- 1000)"
  "int_of_str ''five'' = None"
  "int_of_str ''4 2'' = None"
  "int_of_str [CHR 0xA0, CHR ''7'', CHR 0x85] = Some 7"
  "int_of_str [CHR 0x1F, CHR ''7''] = None"
  by (simp_all add: py_eval)

lemma handle_dns_anomaly_refused:
  assumes "py_int (dict_get (parameters r) ''length_threshold'' (PInt 45)) = Inl e \<or>
           py_float rt (dict_get (parameters r) ''entropy_threshold'' (PFloat (Finite 3.5))) = Inl e"
  shows "\<exists>e'. handle_dns_anomaly rt part r ev = Raised e' part"
  using assms by (auto simp: handle_dns_anomaly_def Let_def split: sum.splits)

lemma process_rule_raises:
  assumes "HANDLERS (rule_type r) = Some h"
    and "h rt (dict_get st (rule_id r) Map.empty) r ev = Raised e part'"
  shows "process_rule rt st r ev = ([], st(rule_id r \<mapsto> part'), Some e)"
  using assms by (simp add: process_rule_def)

lemma process_rules_raises:
  assumes "r \<in> set rs"
    and "\<And>st. \<exists>alerts st' e. process_rule rt st r ev = (alerts, st', Some e)"
  shows "\<exists>alerts st' e. process_rules rt st rs ev = (alerts, st', Some e)"
  using assms(1)
proof (induction rs arbitrary: st)
  case Nil
  then show ?case by simp
next
  case (Cons x rs)
  obtain as st1 err where x: "process_rule rt st x ev = (as, st1, err)"
    by (cases "process_rule rt st x ev") auto
  show ?case
  proof (cases err)
    case (Some e)
    with x show ?thesis by simp
  next
    case None
    show ?thesis
    proof (cases "x = r")
      case True
      with assms(2) [of st] x None show ?thesis by simp
    next
      case False
      with Cons.prems have "r \<in> set rs" by simp
      from Cons.IH [OF this, of st1] obtain bs st2 e
        where "process_rules rt st1 rs ev = (bs, st2, Some e)" by blast
      with x None show ?thesis by simp
    qed
  qed
qed

text \<open>
  C6. A rule of a windowed type whose \<open>threshold\<close> or \<open>window_minutes\<close> is present
  and refused by \<open>int\<close> (and likewise a DNS rule whose \<open>length_threshold\<close> is
  refused by \<open>int\<close> or whose \<open>entropy_threshold\<close> is refused by \<open>float\<close>) raises:
  a turn of the engine under the rule yields no alert and ends in an exception, for
  every event, and a run of an engine that holds the rule ends in an exception at its
  first event. No default stands in for the parameter.
\<close>

theorem bad_numeric_parameter_raises:
  assumes "parameters r k = Some v"
    and "((rule_type r = ''failed_login_threshold'' \<or> rule_type r = ''port_scan'') \<and>
          (k = ''threshold'' \<or> k = ''window_minutes'') \<and> py_int v = Inl e) \<or>
         (rule_type r = ''dns_anomaly'' \<and>
          ((k = ''length_threshold'' \<and> py_int v = Inl e) \<or>
           (k = ''entropy_threshold'' \<and> py_float rt v = Inl e)))"
    and "r \<in> set (rules eng)"
  shows "(\<exists>e'. process_rule rt st r ev
            = ([], st(rule_id r \<mapsto> dict_get st (rule_id r) Map.empty), Some e')) \<and>
         (\<exists>alerts eng' e'. process rt eng (ev # evs) = (alerts, eng', Some e'))"
proof -
  have one: "\<exists>e'. process_rule rt s r ev
            = ([], s(rule_id r \<mapsto> dict_get s (rule_id r) Map.empty), Some e')" for s
  proof -
    from assms(2) consider
        (login) "rule_type r = ''failed_login_threshold''"
          "k = ''threshold'' \<or> k = ''window_minutes''" "py_int v = Inl e"
      | (scan) "rule_type r = ''port_scan''"
          "k = ''threshold'' \<or> k = ''window_minutes''" "py_int v = Inl e"
      | (dns) "rule_type r = ''dns_anomaly''"
          "(k = ''length_threshold'' \<and> py_int v = Inl e) \<or>
           (k = ''entropy_threshold'' \<and> py_float rt v = Inl e)"
      by (elim disjE conjE) simp_all
    then show ?thesis
    proof cases
      case login
      with assms(1) have "py_int (dict_get (parameters r) ''threshold'' (PInt 5)) = Inl e \<or>
           py_int (dict_get (parameters r) ''window_minutes'' (PInt 10)) = Inl e"
        by (auto simp: dict_get_def)
      from handle_failed_login_refused [OF this]
      obtain e' where "handle_failed_login rt (dict_get s (rule_id r) Map.empty) r ev
          = Raised e' (dict_get s (rule_id r) Map.empty)"
        by blast
      moreover have "HANDLERS (rule_type r) = Some handle_failed_login"
        using login(1) by (simp add: HANDLERS_def)
      ultimately show ?thesis using process_rule_raises by blast
    next
      case scan
      with assms(1) have "py_int (dict_get (parameters r) ''threshold'' (PInt 15)) = Inl e \<or>
           py_int (dict_get (parameters r) ''window_minutes'' (PInt 5)) = Inl e"
        by (auto simp: dict_get_def)
      from handle_port_scan_refused [OF this]
      obtain e' where "handle_port_scan rt (dict_get s (rule_id r) Map.empty) r ev
          = Raised e' (dict_get s (rule_id r) Map.empty)"
        by blast
      moreover have "HANDLERS (rule_type r) = Some handle_port_scan"
        using scan(1) by (simp add: HANDLERS_def)
      ultimately show ?thesis using process_rule_raises by blast
    next
      case dns
      with assms(1) have "py_int (dict_get (parameters r) ''length_threshold'' (PInt 45)) = Inl e \<or>
           py_float rt (dict_get (parameters r) ''entropy_threshold'' (PFloat (Finite 3.5))) = Inl e"
        by (auto simp: dict_get_def)
      from handle_dns_anomaly_refused [OF this]
      obtain e' where "handle_dns_anomaly rt (dict_get s (rule_id r) Map.empty) r ev
          = Raised e' (dict_get s (rule_id r) Map.empty)"
        by blast
      moreover have "HANDLERS (rule_type r) = Some handle_dns_anomaly"
        using dns(1) by (simp add: HANDLERS_def)
      ultimately show ?thesis using process_rule_raises by blast
    qed
  qed
  then have "\<exists>alerts st' e'. process_rule rt s r ev = (alerts, st', Some e')" for s
    by blast
  from process_rules_raises [OF assms(3) this, of "state eng"]
  obtain as st' e' where "process_rules rt (state eng) (rules eng) ev = (as, st', Some e')"
    by blast
  then have "process rt eng (ev # evs) = (as, eng\<lparr>state := st'\<rparr>, Some e')" by simp
  with one [of st] show ?thesis by blast
qed

theorem bad_numeric_parameter_raises_witness:
  "process rt0 (DetectionEngine
       [sample_rule ''failed_login_threshold'' [''threshold'' \<mapsto> PStr [CHR 0x1F, CHR ''7'']]])
     [sample_event 0 ''dns'' Map.empty]
   = ([], \<lparr>rules = [sample_rule ''failed_login_threshold''
                      [''threshold'' \<mapsto> PStr [CHR 0x1F, CHR ''7'']]],
           state = [''r1'' \<mapsto> Map.empty]\<rparr>, Some ValueError)"
proof -
  let ?r = "sample_rule ''failed_login_threshold'' [''threshold'' \<mapsto> PStr [CHR 0x1F, CHR ''7'']]"
  have p: "parameters ?r ''threshold'' = Some (PStr [CHR 0x1F, CHR ''7''])"
    by (simp add: sample_rule_def)
  have c: "py_int (PStr [CHR 0x1F, CHR ''7'']) = Inl ValueError"
    by (simp add: py_eval)
  have t: "rule_type ?r = ''failed_login_threshold''"
    by (simp add: sample_rule_def)
  have m: "?r \<in> set (rules (DetectionEngine [?r]))"
    by (simp add: DetectionEngine_def sample_rule_def)
  from bad_numeric_parameter_raises [of ?r "''threshold''" "PStr [CHR 0x1F, CHR ''7'']" ValueError rt0
      "DetectionEngine [?r]" "state (DetectionEngine [?r])" "sample_event 0 ''dns'' Map.empty" "[]"]
    p c t m
  show ?thesis
    by (auto simp: DetectionEngine_def sample_rule_def process_rule_def HANDLERS_def
        handle_failed_login_def py_eval)
qed

section \<open>The port-scan handler reads no match field\<close>

text \<open>
  C2, as the code has it. The port-scan handler filters on \<open>event_category\<close> alone:
  it never reads \<open>match_field\<close> or \<open>match_value\<close>, so whatever a rule supplies
  for the two (or nothing) the handler's run is the same: the same alert, the same
  partitions, the same exception.
\<close>

theorem port_scan_ignores_match_parameters:
  "handle_port_scan rt st
     (r\<lparr>parameters := (parameters r)(''match_field'' := mf, ''match_value'' := mv)\<rparr>) ev
   = handle_port_scan rt st r ev"
  by (simp add: handle_port_scan_def dict_get_def Let_def cong: sum.case_cong if_cong)

text \<open>
  C2 as stated fails: under a port-scan rule with \<open>match_field = action\<close>,
  \<open>match_value = deny\<close> and threshold 2, two network events whose \<open>action\<close> is
  \<open>allow\<close> are both appended and counted, and the second one raises the alert
  over the two.
\<close>

theorem port_scan_match_filter_counterexample:
  "parameters (scan_rule 2) ''match_field'' = Some (PStr ''action'') \<and>
   parameters (scan_rule 2) ''match_value'' = Some (PStr ''deny'') \<and>
   details (probe 0 (Some ''22'')) ''action'' = Some ''allow'' \<and>
   details (probe 1 (Some ''23'')) ''action'' = Some ''allow'' \<and>
   map (events \<circ> fst) (fst (process rt0 (DetectionEngine [scan_rule 2])
     [probe 0 (Some ''22''), probe 1 (Some ''23'')]))
   = [[probe 0 (Some ''22''), probe 1 (Some ''23'')]]"
  by (simp add: scan_rule_def probe_def sample_defs DetectionEngine_def process_rule_def
      HANDLERS_def handle_port_scan_def group_key_def bucket_of_def evict_eval py_eval)

section \<open>The anomaly-scoring handler\<close>

subsection \<open>The entropy\<close>


lemma map_of_bump:
  "map_of (bump c m) = (map_of m)(c \<mapsto> (case map_of m c of None \<Rightarrow> 1 | Some n \<Rightarrow> n + 1))"
  by (induction m) (auto simp: fun_eq_iff)

lemma keys_bump: "fst ` set (bump c m) = insert c (fst ` set m)"
  by (induction m) force+

lemma distinct_bump: "distinct (map fst m) \<Longrightarrow> distinct (map fst (bump c m))"
proof (induction m)
  case Nil
  then show ?case by simp
next
  case (Cons x m)
  obtain d n where x: "x = (d, n)" by (cases x)
  from Cons x keys_bump [of c m] show ?case by (auto simp: image_iff)
qed

lemma counting_loop:
  "distinct (map fst m) \<Longrightarrow>
   distinct (map fst (foldl (\<lambda>counts c. bump c counts) m v)) \<and>
   fst ` set (foldl (\<lambda>counts c. bump c counts) m v) = fst ` set m \<union> set v \<and>
   (\<forall>c. (case map_of (foldl (\<lambda>counts c. bump c counts) m v) c of None \<Rightarrow> 0 | Some n \<Rightarrow> n)
        = (case map_of m c of None \<Rightarrow> 0 | Some n \<Rightarrow> n) + count_list v c)"
proof (induction v arbitrary: m)
  case Nil
  then show ?case by simp
next
  case (Cons x v)
  from Cons.IH [OF distinct_bump [OF Cons.prems], of x]
  show ?case
    by (auto simp: keys_bump map_of_bump split: option.splits)
qed

lemma char_counts_distinct: "distinct (map fst (char_counts v))"
  using counting_loop [of "[]" v] by (simp add: char_counts_def)

lemma char_counts_set: "set (char_counts v) = (\<lambda>c. (c, count_list v c)) ` set v"
proof -
  have d: "distinct (map fst (char_counts v))" by (rule char_counts_distinct)
  have k: "fst ` set (char_counts v) = set v"
    using counting_loop [of "[]" v] by (simp add: char_counts_def)
  have n: "(case map_of (char_counts v) c of None \<Rightarrow> 0 | Some n \<Rightarrow> n) = count_list v c" for c
    using counting_loop [of "[]" v] by (simp add: char_counts_def)
  show ?thesis
  proof (intro set_eqI iffI)
    fix p assume p: "p \<in> set (char_counts v)"
    obtain c m where cm: "p = (c, m)" by (cases p)
    with p d have "map_of (char_counts v) c = Some m" by simp
    with n [of c] have "m = count_list v c" by simp
    moreover from p cm k have "c \<in> set v" by force
    ultimately show "p \<in> (\<lambda>c. (c, count_list v c)) ` set v" using cm by simp
  next
    fix p assume "p \<in> (\<lambda>c. (c, count_list v c)) ` set v"
    then obtain c where c: "c \<in> set v" and p: "p = (c, count_list v c)" by auto
    from c k obtain m where m: "(c, m) \<in> set (char_counts v)" by force
    with d have "map_of (char_counts v) c = Some m" by simp
    with n [of c] have "m = count_list v c" by simp
    with m p show "p \<in> set (char_counts v)" by simp
  qed
qed

lemma subtracting_loop:
  fixes f :: "nat \<Rightarrow> real"
  shows "foldl (\<lambda>entropy (c, count). entropy - f count) a xs
         = a - (\<Sum>(c, count)\<leftarrow>xs. f count)"
  by (induction xs arbitrary: a) (auto simp: algebra_simps)

text \<open>
  In a runtime that rounds nothing, \<open>_shannon_entropy\<close> is the entropy of the character
  distribution: minus the sum, over the characters of the string, of \<open>p * log2 p\<close> for
  the share \<open>p\<close> of the character.
\<close>

lemma shannon_entropy_exact:
  assumes "round_double rt = (\<lambda>x. x)" and "libm_log2 rt = log 2"
  shows "shannon_entropy rt v =
         - (\<Sum>c\<in>set v. (real (count_list v c) / real (length v))
                          * log 2 (real (count_list v c) / real (length v)))"
proof -
  let ?f = "\<lambda>n. (real n / real (length v)) * log 2 (real n / real (length v))"
  have "shannon_entropy rt v = 0 - (\<Sum>(c, count)\<leftarrow>char_counts v. ?f count)"
    using assms subtracting_loop [of ?f 0 "char_counts v"]
    by (simp add: shannon_entropy_def Let_def)
  also have "(\<Sum>(c, count)\<leftarrow>char_counts v. ?f count) = (\<Sum>p\<in>set (char_counts v). ?f (snd p))"
  proof -
    have "distinct (char_counts v)"
      using char_counts_distinct [of v] by (simp add: distinct_map)
    then show ?thesis
      by (simp add: sum_list_distinct_conv_sum_set case_prod_unfold)
  qed
  also have "\<dots> = (\<Sum>c\<in>set v. ?f (count_list v c))"
    unfolding char_counts_set
    by (subst sum.reindex) (auto simp: inj_on_def)
  finally show ?thesis by simp
qed

lemma shannon_entropy_rt0:
  "shannon_entropy rt0 v =
     - (\<Sum>c\<in>set v. (real (count_list v c) / real (length v))
                      * log 2 (real (count_list v c) / real (length v)))"
  by (rule shannon_entropy_exact) (simp_all add: rt0_def)





subsection \<open>The alert decision\<close>




subsection \<open>No state\<close>

text \<open>
  C9. The DNS handler is stateless. However its run ends, the partition is the one it
  was given, also while the generator is suspended at an alert, and with another
  partition the run is the same: the same alert, or the same exception. When the two
  thresholds coerce, an event without a \<open>query\<close>, or with an empty one, yields no alert
  and no exception. A turn of the engine under a DNS rule leaves every partition of the
  window store with the buckets it had (it creates at most the rule's own partition,
  empty).
\<close>

theorem dns_anomaly_stateless:
  shows "(case handle_dns_anomaly rt st r ev of
            Returned s \<Rightarrow> s = st \<and> handle_dns_anomaly rt st2 r ev = Returned st2
          | Yielded a s s' \<Rightarrow>
              s = st \<and> s' = st \<and> handle_dns_anomaly rt st2 r ev = Yielded a st2 st2
          | Raised e s \<Rightarrow> s = st \<and> handle_dns_anomaly rt st2 r ev = Raised e st2) \<and>
         (py_int (dict_get (parameters r) ''length_threshold'' (PInt 45)) = Inr L \<and>
          py_float rt (dict_get (parameters r) ''entropy_threshold'' (PFloat (Finite 3.5))) = Inr E \<and>
          (details ev ''query'' = None \<or> details ev ''query'' = Some [])
            \<longrightarrow> handle_dns_anomaly rt st r ev = Returned st) \<and>
         (rule_type r = ''dns_anomaly'' \<longrightarrow>
            (\<forall>rid. dict_get (fst (snd (process_rule rt store r ev))) rid Map.empty
               = dict_get store rid Map.empty))"
proof (intro conjI impI)
  show "case handle_dns_anomaly rt st r ev of
            Returned s \<Rightarrow> s = st \<and> handle_dns_anomaly rt st2 r ev = Returned st2
          | Yielded a s s' \<Rightarrow>
              s = st \<and> s' = st \<and> handle_dns_anomaly rt st2 r ev = Yielded a st2 st2
          | Raised e s \<Rightarrow> s = st \<and> handle_dns_anomaly rt st2 r ev = Raised e st2"
    by (simp add: handle_dns_anomaly_def Let_def split: sum.splits option.splits)
next
  assume "py_int (dict_get (parameters r) ''length_threshold'' (PInt 45)) = Inr L \<and>
          py_float rt (dict_get (parameters r) ''entropy_threshold'' (PFloat (Finite 3.5))) = Inr E \<and>
          (details ev ''query'' = None \<or> details ev ''query'' = Some [])"
  then show "handle_dns_anomaly rt st r ev = Returned st"
    by (auto simp: handle_dns_anomaly_def Let_def)
next
  assume t: "rule_type r = ''dns_anomaly''"
  let ?part = "dict_get store (rule_id r) Map.empty"
  have h: "HANDLERS (rule_type r) = Some handle_dns_anomaly"
    using t by (simp add: HANDLERS_def)
  obtain alerts st' err where run: "process_rule rt store r ev = (alerts, st', err)"
    by (cases "process_rule rt store r ev") auto
  from process_rule_final [OF h run] handle_dns_anomaly_state [of rt ?part r ev]
  have "st' = store(rule_id r \<mapsto> ?part)" by auto
  with run show "\<forall>rid. dict_get (fst (snd (process_rule rt store r ev))) rid Map.empty
               = dict_get store rid Map.empty"
    by (simp add: dict_get_def)
qed

theorem dns_anomaly_stateless_witness:
  "handle_dns_anomaly rt0 [''k'' \<mapsto> []] (dns_rule 45 3.5) (sample_event 0 ''dns'' Map.empty)
     = Returned [''k'' \<mapsto> []]"
proof -
  let ?r = "dns_rule 45 3.5" and ?ev = "sample_event 0 ''dns'' Map.empty"
  have 1: "py_int (dict_get (parameters ?r) ''length_threshold'' (PInt 45)) = Inr 45"
    by (simp add: dns_rule_def sample_defs dict_get_def)
  have 2: "py_float rt0 (dict_get (parameters ?r) ''entropy_threshold'' (PFloat (Finite 3.5)))
      = Inr (Finite 3.5)"
    by (simp add: dns_rule_def sample_defs dict_get_def)
  have 3: "details ?ev ''query'' = None \<or> details ?ev ''query'' = Some []"
    by (simp add: sample_defs)
  from dns_anomaly_stateless [where rt = rt0 and st = "[''k'' \<mapsto> []]" and r = ?r and ev = ?ev
      and L = 45 and E = "Finite 3.5"] 1 2 3
  show ?thesis by blast
qed

section \<open>Distinct values and absent fields\<close>

lemma bucket_of_subset:
  assumes "\<forall>k b. part k = Some b \<longrightarrow> set b \<subseteq> S"
  shows "set (bucket_of part key) \<subseteq> S"
proof (cases "part key")
  case None
  then show ?thesis by (simp add: bucket_of_def dict_get_def)
next
  case (Some b)
  with assms have "set b \<subseteq> S" by blast
  with Some show ?thesis by (simp add: bucket_of_def dict_get_def)
qed

lemma handle_port_scan_quiet:
  assumes T: "py_int (dict_get (parameters r) ''threshold'' (PInt 15)) = Inr T"
    and few: "int (card ((\<lambda>e. details_get (details e)
        (dict_get (parameters r) ''distinct_field'' (PStr ''dest_port''))) ` S)) < T"
    and fin: "finite S"
    and inv: "\<forall>k b. part k = Some b \<longrightarrow> set b \<subseteq> S"
    and ev: "ev \<in> S"
  shows "(\<forall>a s s'. handle_port_scan rt part r ev \<noteq> Yielded a s s') \<and>
         (\<forall>k b. final_state (handle_port_scan rt part r ev) k = Some b \<longrightarrow> set b \<subseteq> S)"
proof (cases "py_int (dict_get (parameters r) ''window_minutes'' (PInt 5))")
  case (Inl e)
  with handle_port_scan_refused [of r e rt part ev]
  obtain e' where "handle_port_scan rt part r ev = Raised e' part" by blast
  with inv show ?thesis by simp
next
  case W: (Inr W)
  let ?f = "\<lambda>e. details_get (details e)
        (dict_get (parameters r) ''distinct_field'' (PStr ''dest_port''))"
  let ?key = "group_key ev (dict_get (parameters r) ''group_by'' (PStr ''src_ip''))"
  let ?app = "bucket_of part ?key @ [ev]"
  have app: "set ?app \<subseteq> S"
    using bucket_of_subset [OF inv, of ?key] ev by simp
  note run = handle_port_scan_run [OF T W refl, of ev rt part]
  show ?thesis
  proof (cases "PStr (category ev) = dict_get (parameters r) ''event_category'' (PStr ''network'')")
    case False
    with run inv show ?thesis by simp
  next
    case True
    show ?thesis
    proof (cases "evict_old ?app (timestamp ev) W")
      case (Inl e)
      with run True have "handle_port_scan rt part r ev = Raised e (part(?key \<mapsto> ?app))"
        by simp
      with inv app show ?thesis by auto
    next
      case (Inr b)
      from evict_old_subset [OF Inr] app have b: "set b \<subseteq> S" by (rule subset_trans)
      then have "?f ` set b \<subseteq> ?f ` S" by blast
      then have "card (?f ` set b) \<le> card (?f ` S)"
        using fin by (simp add: card_mono)
      with few have "\<not> T \<le> int (card (?f ` set b))" by linarith
      with run True Inr have "handle_port_scan rt part r ev = Returned (part(?key \<mapsto> b))"
        by simp
      with inv b show ?thesis by auto
    qed
  qed
qed

lemma process_rule_port_scan_quiet:
  assumes ty: "rule_type r = ''port_scan''"
    and T: "py_int (dict_get (parameters r) ''threshold'' (PInt 15)) = Inr T"
    and few: "int (card ((\<lambda>e. details_get (details e)
        (dict_get (parameters r) ''distinct_field'' (PStr ''dest_port''))) ` S)) < T"
    and fin: "finite S"
    and inv: "\<forall>part k b. st (rule_id r) = Some part \<longrightarrow> part k = Some b \<longrightarrow> set b \<subseteq> S"
    and ev: "ev \<in> S"
    and run: "process_rule rt st r ev = (alerts, st', err)"
  shows "alerts = [] \<and>
         (\<forall>part k b. st' (rule_id r) = Some part \<longrightarrow> part k = Some b \<longrightarrow> set b \<subseteq> S)"
proof -
  let ?part = "dict_get st (rule_id r) Map.empty"
  have h: "HANDLERS (rule_type r) = Some handle_port_scan"
    using ty by (simp add: HANDLERS_def)
  have pinv: "\<forall>k b. ?part k = Some b \<longrightarrow> set b \<subseteq> S"
    using inv by (auto simp: dict_get_def split: option.splits)
  from handle_port_scan_quiet [OF T few fin pinv ev, of rt]
  have q: "\<forall>a s s'. handle_port_scan rt ?part r ev \<noteq> Yielded a s s'"
    and f: "\<forall>k b. final_state (handle_port_scan rt ?part r ev) k = Some b \<longrightarrow> set b \<subseteq> S"
    by auto
  from process_rule_final [OF h run]
  have st': "st' = st(rule_id r \<mapsto> final_state (handle_port_scan rt ?part r ev))" by simp
  from h run q have "alerts = []"
    by (cases "handle_port_scan rt ?part r ev") (auto simp: process_rule_def)
  with f st' show ?thesis by simp
qed

lemma process_port_scan_quiet:
  assumes ty: "rule_type r = ''port_scan''"
    and T: "py_int (dict_get (parameters r) ''threshold'' (PInt 15)) = Inr T"
    and few: "int (card ((\<lambda>e. details_get (details e)
        (dict_get (parameters r) ''distinct_field'' (PStr ''dest_port''))) ` S)) < T"
    and fin: "finite S"
  shows "(\<forall>part k b. st (rule_id r) = Some part \<longrightarrow> part k = Some b \<longrightarrow> set b \<subseteq> S) \<Longrightarrow>
         set evs \<subseteq> S \<Longrightarrow> fst (process rt \<lparr>rules = [r], state = st\<rparr> evs) = []"
proof (induction evs arbitrary: st)
  case Nil
  then show ?case by simp
next
  case (Cons ev evs)
  obtain as st' err where one: "process_rule rt st r ev = (as, st', err)"
    by (cases "process_rule rt st r ev") auto
  from Cons.prems have "ev \<in> S" by simp
  from process_rule_port_scan_quiet [OF ty T few fin Cons.prems(1) this one]
  have as: "as = []"
    and inv': "\<forall>part k b. st' (rule_id r) = Some part \<longrightarrow> part k = Some b \<longrightarrow> set b \<subseteq> S"
    by auto
  from Cons.prems have "set evs \<subseteq> S" by simp
  from Cons.IH [where st = st', OF inv' this]
  have "fst (process rt \<lparr>rules = [r], state = st'\<rparr> evs) = []" .
  with one as show ?case
    by (cases err) (auto simp: process_single_rule_step simp del: process.simps split: prod.splits)
qed

text \<open>
  C3, as the code has it. The port-scan handler counts the results of
  \<open>details.get(distinct_field)\<close> over the bucket, and an event without the field
  contributes the result \<open>None\<close>, one more distinct value. When the events fed to a
  fresh engine with the one port-scan rule have fewer than \<open>T\<close> distinct results
  (\<open>None\<close> counted as one), no alert is emitted.
\<close>

theorem port_scan_fewer_distinct_no_alert:
  assumes "rule_type r = ''port_scan''"
    and "py_int (dict_get (parameters r) ''threshold'' (PInt 15)) = Inr T"
    and "int (card ((\<lambda>e. details_get (details e)
        (dict_get (parameters r) ''distinct_field'' (PStr ''dest_port''))) ` set evs)) < T"
  shows "fst (process rt \<lparr>rules = [r], state = Map.empty\<rparr> evs) = []"
  using process_port_scan_quiet [where S = "set evs" and st = Map.empty, OF assms] by simp

theorem port_scan_fewer_distinct_no_alert_witness:
  "fst (process rt0 \<lparr>rules = [scan_rule 3], state = Map.empty\<rparr>
     [probe 0 (Some ''22''), probe 1 None, probe 2 (Some ''22'')]) = []"
proof -
  have 1: "rule_type (scan_rule 3) = ''port_scan''"
    by (simp add: scan_rule_def sample_defs)
  have 2: "py_int (dict_get (parameters (scan_rule 3)) ''threshold'' (PInt 15)) = Inr 3"
    by (simp add: scan_rule_def sample_defs dict_get_def)
  have 3: "int (card ((\<lambda>e. details_get (details e)
        (dict_get (parameters (scan_rule 3)) ''distinct_field'' (PStr ''dest_port''))) `
        set [probe 0 (Some ''22''), probe 1 None, probe 2 (Some ''22'')])) < 3"
    by (simp add: scan_rule_def probe_def sample_defs dict_get_def card_insert_if)
  from port_scan_fewer_distinct_no_alert [OF 1 2 3] show ?thesis .
qed

text \<open>
  C3 as stated fails: with threshold 2, an event with \<open>dest_port = 22\<close> followed by
  an event without \<open>dest_port\<close> (one present value, fewer than 2) raises an alert
  over the two events.
\<close>

theorem port_scan_absent_field_counterexample:
  "details (probe 0 (Some ''22'')) ''dest_port'' = Some ''22'' \<and>
   details (probe 1 None) ''dest_port'' = None \<and>
   map (events \<circ> fst) (fst (process rt0 (DetectionEngine [scan_rule 2])
     [probe 0 (Some ''22''), probe 1 None]))
   = [[probe 0 (Some ''22''), probe 1 None]]"
  by (simp add: scan_rule_def probe_def sample_defs DetectionEngine_def process_rule_def
      HANDLERS_def handle_port_scan_def group_key_def bucket_of_def evict_eval py_eval)

section \<open>Threshold trigger and reset\<close>






section \<open>Window eviction\<close>

lemma ordered_upto_Nil: "ordered_upto t []"
  by (simp add: ordered_upto_def)

lemma within_window_Nil: "within_window W []"
  by (simp add: within_window_def)

lemma ordered_upto_mono: "ordered_upto t b \<Longrightarrow> t \<le> t' \<Longrightarrow> ordered_upto t' b"
  by (fastforce simp: ordered_upto_def)

lemma ordered_upto_append:
  assumes "ordered_upto t b" and "t \<le> timestamp ev" and "is_datetime (timestamp ev)"
  shows "ordered_upto (timestamp ev) (b @ [ev])"
  using assms by (fastforce simp: ordered_upto_def sorted_append)

lemma ordered_upto_evict:
  assumes "ordered_upto t b" and "t \<le> timestamp ev" and "is_datetime (timestamp ev)"
    and "evict_old (b @ [ev]) (timestamp ev) W = Inr b'"
  shows "ordered_upto (timestamp ev) b'"
proof -
  from ordered_upto_append [OF assms(1-3)]
  have s: "sorted (map timestamp (b @ [ev]))"
    and l: "\<forall>e\<in>set (b @ [ev]). is_datetime (timestamp e) \<and> timestamp e \<le> timestamp ev"
    by (simp_all add: ordered_upto_def)
  from evict_old_subset [OF assms(4)] l
  have "\<forall>e\<in>set b'. is_datetime (timestamp e) \<and> timestamp e \<le> timestamp ev" by blast
  with evict_old_sorted [OF s assms(4)] show ?thesis by (simp add: ordered_upto_def)
qed

lemma within_window_evict:
  assumes "ordered_upto t b" and "t \<le> timestamp ev" and "is_datetime (timestamp ev)"
    and "evict_old (b @ [ev]) (timestamp ev) W = Inr b'"
  shows "within_window W b'"
  unfolding within_window_def
proof (intro ballI)
  fix e e'
  assume e: "e \<in> set b'" and e': "e' \<in> set b'"
  from ordered_upto_append [OF assms(1-3)]
  have s: "sorted (map timestamp (b @ [ev]))" by (simp add: ordered_upto_def)
  from evict_old_cutoff [OF s assms(4) e] have "timestamp ev - 60 * W \<le> timestamp e" .
  moreover from ordered_upto_evict [OF assms] e' have "timestamp e' \<le> timestamp ev"
    by (simp add: ordered_upto_def)
  ultimately show "timestamp e' - 60 * W \<le> timestamp e" by linarith
qed

lemma within_window_overflow:
  assumes "ordered_upto t b" and "t \<le> timestamp ev" and "is_datetime (timestamp ev)"
    and "evict_old (b @ [ev]) (timestamp ev) W = Inl err" and "0 \<le> W"
  shows "within_window W (b @ [ev])"
  unfolding within_window_def
proof (intro ballI)
  fix e e'
  assume e: "e \<in> set (b @ [ev])" and e': "e' \<in> set (b @ [ev])"
  from ordered_upto_append [OF assms(1-3)] e e'
  have "is_datetime (timestamp e)" and "timestamp e' \<le> timestamp ev"
    by (auto simp: ordered_upto_def)
  with evict_old_Inl_before [OF assms(4,5,3), of "timestamp e"]
  show "timestamp e' - 60 * W \<le> timestamp e" by linarith
qed

lemma bucket_of_ordered:
  assumes "\<forall>key b. part key = Some b \<longrightarrow> ordered_upto t b"
  shows "ordered_upto t (bucket_of part key)"
  using assms by (cases "part key") (simp_all add: bucket_of_def dict_get_def ordered_upto_Nil)

lemma store_ordered_mono: "store_ordered t st \<Longrightarrow> t \<le> t' \<Longrightarrow> store_ordered t' st"
  unfolding store_ordered_def using ordered_upto_mono by blast

lemma process_rule_store_ordered:
  assumes inv: "store_ordered t st"
    and le: "t \<le> timestamp ev" and dt: "is_datetime (timestamp ev)"
    and run: "process_rule rt st r' ev = (alerts, st', err)"
  shows "store_ordered (timestamp ev) st'"
proof -
  let ?P = "dict_get st (rule_id r') Map.empty"
  have old: "store_ordered (timestamp ev) st"
    using inv le by (rule store_ordered_mono)
  have P: "\<forall>key b. ?P key = Some b \<longrightarrow> ordered_upto t b"
    using inv by (auto simp: store_ordered_def dict_get_def split: option.splits)
  then have P': "\<forall>key b. ?P key = Some b \<longrightarrow> ordered_upto (timestamp ev) b"
    using le ordered_upto_mono by blast
  have upd: "store_ordered (timestamp ev) (st(rule_id r' \<mapsto> part'))"
    if "\<forall>key b. part' key = Some b \<longrightarrow> ordered_upto (timestamp ev) b" for part'
    using that old unfolding store_ordered_def by (auto split: if_splits)
  from process_rule_shape [OF run] consider
      "st' = st"
    | "st' = st(rule_id r' \<mapsto> ?P)"
    | key where "st' = st(rule_id r' \<mapsto> ?P(key \<mapsto> []))"
    | key W' b where "evict_old (bucket_of ?P key @ [ev]) (timestamp ev) W' = Inr b"
        "st' = st(rule_id r' \<mapsto> ?P(key \<mapsto> b))"
    | key where "st' = st(rule_id r' \<mapsto> ?P(key \<mapsto> bucket_of ?P key @ [ev]))"
    by blast
  then show ?thesis
  proof cases
    case 1
    with old show ?thesis by simp
  next
    case 2
    from P' show ?thesis unfolding 2 by (rule upd)
  next
    case 3
    have "\<forall>k b. (?P(key \<mapsto> [])) k = Some b \<longrightarrow> ordered_upto (timestamp ev) b"
      using P' by (auto simp: ordered_upto_Nil)
    then show ?thesis unfolding 3 by (rule upd)
  next
    case 4
    have "\<forall>k b'. (?P(key \<mapsto> b)) k = Some b' \<longrightarrow> ordered_upto (timestamp ev) b'"
      using P' ordered_upto_evict [OF bucket_of_ordered [OF P, of key] le dt 4(1)] by auto
    then show ?thesis unfolding 4(2) by (rule upd)
  next
    case 5
    have "\<forall>k b'. (?P(key \<mapsto> bucket_of ?P key @ [ev])) k = Some b'
        \<longrightarrow> ordered_upto (timestamp ev) b'"
      using P' ordered_upto_append [OF bucket_of_ordered [OF P, of key] le dt] by auto
    then show ?thesis unfolding 5 by (rule upd)
  qed
qed

lemma process_rule_windowed:
  assumes ord: "store_ordered t st"
    and le: "t \<le> timestamp ev" and dt: "is_datetime (timestamp ev)"
    and win: "rule_windowed r W st"
    and own: "rule_id r' = rule_id r \<longrightarrow> r' = r"
    and W: "window_minutes_of r = Inr W"
    and run: "process_rule rt st r' ev = (alerts, st', err)"
    and ok: "0 \<le> W \<or> err = None"
  shows "rule_windowed r W st'"
proof (cases "rule_id r' = rule_id r")
  case False
  from process_rule_other_partition [OF False run] win show ?thesis
    by (simp add: rule_windowed_def)
next
  case True
  with own have r': "r' = r" by simp
  let ?P = "dict_get st (rule_id r) Map.empty"
  have P: "\<forall>key b. ?P key = Some b \<longrightarrow> within_window W b"
    using win by (auto simp: rule_windowed_def dict_get_def split: option.splits)
  have Po: "\<forall>key b. ?P key = Some b \<longrightarrow> ordered_upto t b"
    using ord by (auto simp: store_ordered_def dict_get_def split: option.splits)
  have upd: "rule_windowed r W (st(rule_id r \<mapsto> part'))"
    if "\<forall>key b. part' key = Some b \<longrightarrow> within_window W b" for part'
    using that by (simp add: rule_windowed_def)
  from process_rule_shape [OF run [unfolded r']] W consider
      "st' = st"
    | "st' = st(rule_id r \<mapsto> ?P)"
    | key where "st' = st(rule_id r \<mapsto> ?P(key \<mapsto> []))"
    | key b where "evict_old (bucket_of ?P key @ [ev]) (timestamp ev) W = Inr b"
        "st' = st(rule_id r \<mapsto> ?P(key \<mapsto> b))"
    | key e where "evict_old (bucket_of ?P key @ [ev]) (timestamp ev) W = Inl e"
        "err = Some e" "st' = st(rule_id r \<mapsto> ?P(key \<mapsto> bucket_of ?P key @ [ev]))"
    by auto
  then show ?thesis
  proof cases
    case 1
    with win show ?thesis by simp
  next
    case 2
    from P show ?thesis unfolding 2 by (rule upd)
  next
    case 3
    have "\<forall>k b. (?P(key \<mapsto> [])) k = Some b \<longrightarrow> within_window W b"
      using P by (auto simp: within_window_Nil)
    then show ?thesis unfolding 3 by (rule upd)
  next
    case 4
    have "\<forall>k b'. (?P(key \<mapsto> b)) k = Some b' \<longrightarrow> within_window W b'"
      using P within_window_evict [OF bucket_of_ordered [OF Po, of key] le dt 4(1)] by auto
    then show ?thesis unfolding 4(2) by (rule upd)
  next
    case 5
    with ok have W0: "0 \<le> W" by simp
    have "\<forall>k b'. (?P(key \<mapsto> bucket_of ?P key @ [ev])) k = Some b' \<longrightarrow> within_window W b'"
      using P within_window_overflow [OF bucket_of_ordered [OF Po, of key] le dt 5(1) W0] by auto
    then show ?thesis unfolding 5(3) by (rule upd)
  qed
qed

lemma process_rules_windowed:
  assumes own: "\<forall>r'\<in>set rs. rule_id r' = rule_id r \<longrightarrow> r' = r"
    and W: "window_minutes_of r = Inr W"
    and dt: "is_datetime (timestamp ev)"
  shows "store_ordered t st \<Longrightarrow> t \<le> timestamp ev \<Longrightarrow> rule_windowed r W st \<Longrightarrow>
         process_rules rt st rs ev = (alerts, st', err) \<Longrightarrow> 0 \<le> W \<or> err = None \<Longrightarrow>
         store_ordered (timestamp ev) st' \<and> rule_windowed r W st'"
  using own
proof (induction rs arbitrary: st t alerts st' err)
  case Nil
  then show ?case
    using store_ordered_mono by auto
next
  case (Cons x rs)
  obtain as st1 e1 where one: "process_rule rt st x ev = (as, st1, e1)"
    by (cases "process_rule rt st x ev") auto
  from Cons.prems(6) have ownx: "rule_id x = rule_id r \<longrightarrow> x = r"
    and ownrs: "\<forall>r'\<in>set rs. rule_id r' = rule_id r \<longrightarrow> r' = r" by auto
  from process_rule_store_ordered [OF Cons.prems(1,2) dt one]
  have o1: "store_ordered (timestamp ev) st1" .
  show ?case
  proof (cases e1)
    case (Some e)
    with one Cons.prems(4) have "st' = st1" and "err = Some e" by simp_all
    with Cons.prems(5) have "0 \<le> W \<or> e1 = None" by simp
    from process_rule_windowed [OF Cons.prems(1,2) dt Cons.prems(3) ownx W one this]
    have "rule_windowed r W st1" .
    with o1 \<open>st' = st1\<close> show ?thesis by simp
  next
    case None
    then have "0 \<le> W \<or> e1 = None" by simp
    from process_rule_windowed [OF Cons.prems(1,2) dt Cons.prems(3) ownx W one this]
    have w1: "rule_windowed r W st1" .
    obtain bs st2 e2 where two: "process_rules rt st1 rs ev = (bs, st2, e2)"
      by (cases "process_rules rt st1 rs ev") auto
    with one None Cons.prems(4) have "st' = st2" and "err = e2" by simp_all
    with Cons.IH [OF o1 order_refl w1 two _ ownrs] Cons.prems(5) show ?thesis by simp
  qed
qed

lemma process_windowed:
  assumes own: "\<forall>r'\<in>set (rules eng0). rule_id r' = rule_id r \<longrightarrow> r' = r"
    and W: "window_minutes_of r = Inr W"
  shows "rules eng = rules eng0 \<Longrightarrow> store_ordered t (state eng) \<Longrightarrow>
         rule_windowed r W (state eng) \<Longrightarrow>
         sorted (map timestamp evs) \<Longrightarrow>
         \<forall>ev\<in>set evs. t \<le> timestamp ev \<and> is_datetime (timestamp ev) \<Longrightarrow>
         process rt eng evs = (alerts, eng', err) \<Longrightarrow> 0 \<le> W \<or> err = None \<Longrightarrow>
         rule_windowed r W (state eng')"
proof (induction evs arbitrary: eng t alerts eng' err)
  case Nil
  then show ?case by simp
next
  case (Cons ev evs)
  obtain as st1 e1 where one: "process_rules rt (state eng) (rules eng) ev = (as, st1, e1)"
    by (cases "process_rules rt (state eng) (rules eng) ev") auto
  from Cons.prems(5) have le: "t \<le> timestamp ev" and dt: "is_datetime (timestamp ev)"
    by simp_all
  from own Cons.prems(1) have own': "\<forall>r'\<in>set (rules eng). rule_id r' = rule_id r \<longrightarrow> r' = r"
    by simp
  show ?case
  proof (cases e1)
    case (Some e)
    with one Cons.prems(6) have "state eng' = st1" and "err = Some e" by auto
    with Cons.prems(7) Some have "0 \<le> W \<or> e1 = None" by simp
    from process_rules_windowed [OF own' W dt Cons.prems(2) le Cons.prems(3) one this]
      \<open>state eng' = st1\<close> show ?thesis by simp
  next
    case None
    then have "0 \<le> W \<or> e1 = None" by simp
    from process_rules_windowed [OF own' W dt Cons.prems(2) le Cons.prems(3) one this]
    have o1: "store_ordered (timestamp ev) st1" and w1: "rule_windowed r W st1" by auto
    obtain bs eng2 e2 where two: "process rt (eng\<lparr>state := st1\<rparr>) evs = (bs, eng2, e2)"
      by (cases "process rt (eng\<lparr>state := st1\<rparr>) evs") auto
    with one None Cons.prems(6) have e: "eng' = eng2" and er: "err = e2" by simp_all
    have r: "rules (eng\<lparr>state := st1\<rparr>) = rules eng0" using Cons.prems(1) by simp
    have s: "sorted (map timestamp evs)" using Cons.prems(4) by simp
    have l: "\<forall>e\<in>set evs. timestamp ev \<le> timestamp e \<and> is_datetime (timestamp e)"
      using Cons.prems(4,5) by auto
    have o1': "store_ordered (timestamp ev) (state (eng\<lparr>state := st1\<rparr>))" using o1 by simp
    have w1': "rule_windowed r W (state (eng\<lparr>state := st1\<rparr>))" using w1 by simp
    from Cons.prems(7) er have ok: "0 \<le> W \<or> e2 = None" by simp
    from Cons.IH [OF r o1' w1' s l two ok] e show ?thesis by simp
  qed
qed

text \<open>
  C5. Take rules with distinct ids (the data model's \<open>id\<close> is unique), a rule \<open>r\<close>
  among them of a windowed type whose \<open>window_minutes\<close> coerces to \<open>W\<close>, and events
  whose timestamps are datetimes in non-decreasing order. After the engine has
  processed them, every event \<open>e\<close> left in any bucket of \<open>r\<close> satisfies
  \<open>timestamp e \<ge> timestamp e' - 60 * W\<close> for every event \<open>e'\<close> of that bucket, the
  latest one included. This holds of a run that came to its end, and, when \<open>W\<close> is
  not negative, also of a run that an exception ended. (Under a negative window a
  cutoff beyond the last \<open>datetime\<close> raises once the event is appended and before
  anything is evicted, and the appended event is then outside its own window.)
\<close>

theorem window_eviction_invariant:
  assumes ids: "distinct (map rule_id rs)"
    and srt: "sorted (map timestamp evs)"
    and valid: "\<forall>e\<in>set evs. is_datetime (timestamp e)"
    and r: "r \<in> set rs"
    and ty: "rule_type r = ''failed_login_threshold'' \<or> rule_type r = ''port_scan''"
    and W: "window_minutes_of r = Inr W"
    and run: "process rt (DetectionEngine rs) evs = (alerts, eng', err)"
    and ok: "0 \<le> W \<or> err = None"
  shows "\<forall>part key b. state eng' (rule_id r) = Some part \<longrightarrow> part key = Some b \<longrightarrow>
           (\<forall>e\<in>set b. \<forall>e'\<in>set b. timestamp e' - 60 * W \<le> timestamp e)"
proof -
  have own: "\<forall>r'\<in>set (rules (DetectionEngine rs)). rule_id r' = rule_id r \<longrightarrow> r' = r"
    using ids r by (auto simp: DetectionEngine_def distinct_map dest: inj_onD)
  have o: "store_ordered t (state (DetectionEngine rs))" for t
    by (simp add: DetectionEngine_def store_ordered_def)
  have w: "rule_windowed r W (state (DetectionEngine rs))"
    by (simp add: DetectionEngine_def rule_windowed_def)
  show ?thesis
  proof (cases evs)
    case Nil
    with run show ?thesis by (auto simp: DetectionEngine_def)
  next
    case (Cons ev evs')
    with srt valid have "\<forall>e\<in>set evs. timestamp ev \<le> timestamp e \<and> is_datetime (timestamp e)"
      by auto
    from process_windowed [OF own W refl o w srt this run ok]
    show ?thesis by (simp add: rule_windowed_def within_window_def)
  qed
qed


theorem window_eviction_invariant_witness:
  "state (fst (snd (process rt0 (DetectionEngine [login_rule 3 10])
       [failed_login 0, failed_login 120]))) ''r1''
     = Some [''alice'' \<mapsto> [failed_login 0, failed_login 120]] \<and>
   timestamp (failed_login 120) - 60 * 10 \<le> timestamp (failed_login 0)"
proof -
  let ?r = "login_rule 3 10"
  let ?evs = "[failed_login 0, failed_login 120]"
  let ?run = "process rt0 (DetectionEngine [?r]) ?evs"
  have ids: "distinct (map rule_id [?r])" by simp
  have srt: "sorted (map timestamp ?evs)"
    by (simp add: failed_login_def sample_defs)
  have valid: "\<forall>e\<in>set ?evs. is_datetime (timestamp e)"
    by (simp add: failed_login_def sample_defs is_datetime_def datetime_min_def datetime_max_def)
  have r: "?r \<in> set [?r]" by simp
  have ty: "rule_type ?r = ''failed_login_threshold'' \<or> rule_type ?r = ''port_scan''"
    by (simp add: login_rule_def sample_defs)
  have W: "window_minutes_of ?r = Inr 10"
    by (simp add: window_minutes_of_def login_rule_def sample_defs dict_get_def)
  have run: "?run = (fst ?run, fst (snd ?run), snd (snd ?run))" by simp
  have ok: "(0::int) \<le> 10 \<or> snd (snd ?run) = None" by simp
  have st: "state (fst (snd ?run)) ''r1'' = Some [''alice'' \<mapsto> ?evs]"
    by (simp add: DetectionEngine_def login_rule_def failed_login_def sample_defs
        process_rule_def HANDLERS_def handle_failed_login_def group_key_def bucket_of_def
        evict_eval py_eval)
  have id: "rule_id ?r = ''r1''" by (simp add: login_rule_def sample_defs)
  from window_eviction_invariant [OF ids srt valid r ty W run ok] st id
  have "\<forall>e\<in>set ?evs. \<forall>e'\<in>set ?evs. timestamp e' - 60 * 10 \<le> timestamp e"
    by (metis fun_upd_same)
  then have "timestamp (failed_login 120) - 60 * 10 \<le> timestamp (failed_login 0)" by simp
  with st show ?thesis by simp
qed

section \<open>Bucket sizes under a threshold rule\<close>

lemma process_rules_reachable:
  "reachable rt rs st \<Longrightarrow> set rs' \<subseteq> set rs \<Longrightarrow>
   process_rules rt st rs' ev = (alerts, st', None) \<Longrightarrow> reachable rt rs st'"
proof (induction rs' arbitrary: st alerts st')
  case Nil
  then show ?case by simp
next
  case (Cons x xs)
  obtain as st1 e1 where one: "process_rule rt st x ev = (as, st1, e1)"
    by (cases "process_rule rt st x ev") auto
  from Cons.prems(2) have x: "x \<in> set rs" and xs: "set xs \<subseteq> set rs" by auto
  obtain bs st2 e2 where two: "process_rules rt st1 xs ev = (bs, st2, e2)"
    by (cases "process_rules rt st1 xs ev") auto
  from one two Cons.prems(3) have e1: "e1 = None" and e2: "e2 = None" and st': "st' = st2"
    by (cases e1; simp)+
  from reachable.turn [OF Cons.prems(1) x one [unfolded e1]] have "reachable rt rs st1" .
  from Cons.IH [OF this xs two [unfolded e2]] st' show ?case by simp
qed

lemma process_reachable:
  "reachable rt (rules eng) (state eng) \<Longrightarrow> process rt eng evs = (alerts, eng', None) \<Longrightarrow>
   rules eng' = rules eng \<and> reachable rt (rules eng) (state eng')"
proof (induction evs arbitrary: eng alerts eng')
  case Nil
  then show ?case by simp
next
  case (Cons ev evs)
  obtain as st1 e1 where one: "process_rules rt (state eng) (rules eng) ev = (as, st1, e1)"
    by (cases "process_rules rt (state eng) (rules eng) ev") auto
  obtain bs eng2 e2 where two: "process rt (eng\<lparr>state := st1\<rparr>) evs = (bs, eng2, e2)"
    by (cases "process rt (eng\<lparr>state := st1\<rparr>) evs") auto
  from one two Cons.prems(2) have e1: "e1 = None" and e2: "e2 = None" and e: "eng' = eng2"
    by (cases e1; simp)+
  from process_rules_reachable [OF Cons.prems(1) subset_refl one [unfolded e1]]
  have "reachable rt (rules (eng\<lparr>state := st1\<rparr>)) (state (eng\<lparr>state := st1\<rparr>))" by simp
  from Cons.IH [OF this two [unfolded e2]] e show ?case by simp
qed

text \<open>
  A run of a new engine that has not raised has passed only through such stores, and
  ends in one.
\<close>

lemma engine_run_reachable:
  assumes "process rt (DetectionEngine rs) evs = (alerts, eng', None)"
  shows "reachable rt (filter enabled rs) (state eng')"
proof -
  have "reachable rt (rules (DetectionEngine rs)) (state (DetectionEngine rs))"
    by (simp add: DetectionEngine_def reachable.fresh)
  from process_reachable [OF this assms] show ?thesis
    by (simp add: DetectionEngine_def)
qed




end
